theory Spec2Isabelle
  imports Main "HOL-Library.Word" "HOL-Library.Char_ord" "HOL-Library.List_Lexorder"
begin

section \<open>Python values as decoded from a property list\<close>

text \<open>
  \<^verbatim>\<open>plistlib.loads\<close> yields Python values: \<^verbatim>\<open>None\<close> (the null object of a binary
  property list), booleans, integers, floats, strings, bytes, dates, lists and dictionaries
  with string keys. A string is its UTF-8 byte sequence; on such sequences equality and the
  lexicographic order coincide with Python's comparison by code point. A float is its IEEE 754
  binary64 bit pattern. A dictionary is an association list in insertion order; a Python
  dictionary never holds a key twice, and lookup takes the first entry of a key.
\<close>

datatype pval =
    PNone
  | PBool bool
  | PInt int
  | PReal "64 word"
  | PStr string
  | PData "8 word list"
  | PDate int
  | PList "pval list"
  | PDict "(string \<times> pval) list"

text \<open>The exceptions that the program can meet.\<close>

datatype exn =
    AttributeError | TypeError | FileNotFoundError | BadZipFile | PermissionError
  | IsADirectoryError

text \<open>
  Truthiness, Python's \<^verbatim>\<open>bool(v)\<close>: \<^verbatim>\<open>None\<close>, \<^verbatim>\<open>False\<close>, zero, and the empty string, bytes,
  list and dictionary are false; everything else is true. A float is zero when all bits but
  the sign bit are clear (so NaN is true).
\<close>

fun py_bool :: "pval \<Rightarrow> bool" where
  "py_bool PNone = False"
| "py_bool (PBool b) = b"
| "py_bool (PInt i) = (i \<noteq> 0)"
| "py_bool (PReal w) = (take_bit 63 w \<noteq> 0)"
| "py_bool (PStr s) = (s \<noteq> [])"
| "py_bool (PData bs) = (bs \<noteq> [])"
| "py_bool (PDate t) = True"
| "py_bool (PList xs) = (xs \<noteq> [])"
| "py_bool (PDict kvs) = (kvs \<noteq> [])"

text \<open>\<^verbatim>\<open>a or b\<close> is \<^verbatim>\<open>a\<close> when \<^verbatim>\<open>a\<close> is true and \<^verbatim>\<open>b\<close> otherwise.\<close>

definition py_or :: "pval \<Rightarrow> pval \<Rightarrow> pval" where
  "py_or a b = (if py_bool a then a else b)"

text \<open>\<^verbatim>\<open>d.get(k, default)\<close> on the entries of a dictionary \<^verbatim>\<open>d\<close>.\<close>

definition dict_get :: "(string \<times> pval) list \<Rightarrow> string \<Rightarrow> pval \<Rightarrow> pval" where
  "dict_get kvs k d = (case map_of kvs k of Some v \<Rightarrow> v | None \<Rightarrow> d)"

section \<open>Keys\<close>

definition ATS_TOP_KEYS :: "string list" where
  "ATS_TOP_KEYS =
     [''NSAllowsArbitraryLoads'',
      ''NSAllowsArbitraryLoadsInWebContent'',
      ''NSAllowsArbitraryLoadsForMedia'']"

definition DOMAIN_KEYS :: "string list" where
  "DOMAIN_KEYS =
     [''NSExceptionAllowsInsecureHTTPLoads'',
      ''NSTemporaryExceptionAllowsInsecureHTTPLoads'',
      ''NSIncludesSubdomains'',
      ''NSRequiresCertificateTransparency'',
      ''NSExceptionMinimumTLSVersion'',
      ''NSTemporaryExceptionMinimumTLSVersion'',
      ''NSExceptionRequiresForwardSecrecy'',
      ''NSTemporaryExceptionRequiresForwardSecrecy'']"

section \<open>\<^verbatim>\<open>summarize_pl\<close>\<close>

text \<open>
  One row of \<^verbatim>\<open>domains\<close>: the dictionary \<^verbatim>\<open>row\<close> of the source, whose keys are fixed:
  \<^verbatim>\<open>"domain"\<close>, the eight \<^verbatim>\<open>DOMAIN_KEYS\<close> and the two derived entries.
\<close>

record row =
  domain :: string
  NSExceptionAllowsInsecureHTTPLoads :: pval
  NSTemporaryExceptionAllowsInsecureHTTPLoads :: pval
  NSIncludesSubdomains :: pval
  NSRequiresCertificateTransparency :: pval
  NSExceptionMinimumTLSVersion :: pval
  NSTemporaryExceptionMinimumTLSVersion :: pval
  NSExceptionRequiresForwardSecrecy :: pval
  NSTemporaryExceptionRequiresForwardSecrecy :: pval
  effective_http_permitted :: bool
  MinimumTLSVersionEffective :: pval

record summary =
  top_level :: "(string \<times> pval) list"
  domains :: "row list"

text \<open>
  The body of the loop over the sorted items (lines 90 to 96), with the inner loop over
  \<^verbatim>\<open>DOMAIN_KEYS\<close> written out key by key. \<^verbatim>\<open>cfg.get\<close> exists only on a dictionary: any
  other value raises \<^verbatim>\<open>AttributeError\<close>.
\<close>

definition make_row :: "(string \<times> pval) list \<Rightarrow> string \<Rightarrow> pval \<Rightarrow> exn + row" where
  "make_row top' dname cfg =
     (case cfg of
        PDict ce \<Rightarrow>
          (let insecure_http = dict_get ce ''NSExceptionAllowsInsecureHTTPLoads'' PNone;
               insecure_http_legacy = dict_get ce ''NSTemporaryExceptionAllowsInsecureHTTPLoads'' PNone;
               min_tls = dict_get ce ''NSExceptionMinimumTLSVersion'' PNone;
               min_tls_legacy = dict_get ce ''NSTemporaryExceptionMinimumTLSVersion'' PNone;
               http_domain = (py_bool insecure_http \<or> py_bool insecure_http_legacy);
               http_global = py_bool (dict_get top' ''NSAllowsArbitraryLoads'' PNone)
           in Inr \<lparr> domain = dname,
                    NSExceptionAllowsInsecureHTTPLoads = insecure_http,
                    NSTemporaryExceptionAllowsInsecureHTTPLoads = insecure_http_legacy,
                    NSIncludesSubdomains = dict_get ce ''NSIncludesSubdomains'' PNone,
                    NSRequiresCertificateTransparency =
                      dict_get ce ''NSRequiresCertificateTransparency'' PNone,
                    NSExceptionMinimumTLSVersion = min_tls,
                    NSTemporaryExceptionMinimumTLSVersion = min_tls_legacy,
                    NSExceptionRequiresForwardSecrecy =
                      dict_get ce ''NSExceptionRequiresForwardSecrecy'' PNone,
                    NSTemporaryExceptionRequiresForwardSecrecy =
                      dict_get ce ''NSTemporaryExceptionRequiresForwardSecrecy'' PNone,
                    effective_http_permitted = (http_domain \<or> http_global),
                    MinimumTLSVersionEffective = py_or min_tls min_tls_legacy \<rparr>)
      | _ \<Rightarrow> Inl AttributeError)"

text \<open>The loop itself: rows in the order of the items, the first exception ends it.\<close>

fun domain_rows :: "(string \<times> pval) list \<Rightarrow> (string \<times> pval) list \<Rightarrow> exn + row list" where
  "domain_rows top' [] = Inr []"
| "domain_rows top' ((dname, cfg) # rest) =
     (case make_row top' dname cfg of
        Inl e \<Rightarrow> Inl e
      | Inr r \<Rightarrow>
          (case domain_rows top' rest of
             Inl e \<Rightarrow> Inl e
           | Inr rs \<Rightarrow> Inr (r # rs)))"

text \<open>
  Lines 85 to 87, on the entries of a dictionary: \<^verbatim>\<open>pl.get("NSAppTransportSecurity", {}) or {}\<close>,
  \<^verbatim>\<open>ats.get("NSExceptionDomains", {}) or {}\<close> and the dictionary \<^verbatim>\<open>top\<close>.
\<close>

definition ats_of :: "(string \<times> pval) list \<Rightarrow> pval" where
  "ats_of pe = py_or (dict_get pe ''NSAppTransportSecurity'' (PDict [])) (PDict [])"

definition exc_of :: "(string \<times> pval) list \<Rightarrow> pval" where
  "exc_of ae = py_or (dict_get ae ''NSExceptionDomains'' (PDict [])) (PDict [])"

definition top_of :: "(string \<times> pval) list \<Rightarrow> (string \<times> pval) list" where
  "top_of ae = map (\<lambda>k. (k, dict_get ae k PNone)) ATS_TOP_KEYS"

text \<open>
  \<^verbatim>\<open>pl.get\<close>, \<^verbatim>\<open>ats.get\<close> and \<^verbatim>\<open>exc.items\<close> exist only on dictionaries: on any other
  value the attribute lookup raises \<^verbatim>\<open>AttributeError\<close>. The keys of a dictionary are
  distinct, so \<^verbatim>\<open>sorted(exc.items())\<close> orders the items by key.
\<close>

definition summarize_pl :: "pval \<Rightarrow> exn + summary" where
  "summarize_pl pl =
     (case pl of
        PDict pe \<Rightarrow>
          (case ats_of pe of
             PDict ae \<Rightarrow>
               (case exc_of ae of
                  PDict ee \<Rightarrow>
                    (case domain_rows (top_of ae) (sort_key fst ee) of
                       Inl e \<Rightarrow> Inl e
                     | Inr ds \<Rightarrow> Inr \<lparr> top_level = top_of ae, domains = ds \<rparr>)
                | _ \<Rightarrow> Inl AttributeError)
           | _ \<Rightarrow> Inl AttributeError)
      | _ \<Rightarrow> Inl AttributeError)"

section \<open>\<^verbatim>\<open>find_all_info_plists\<close>\<close>

text \<open>
  \<^verbatim>\<open>fnmatch.fnmatch(name, pat)\<close> on a POSIX system (where \<^verbatim>\<open>os.path.normcase\<close> changes
  nothing), for the pattern characters that the three patterns use: \<^verbatim>\<open>*\<close> matches any
  run of characters, the path separator included, and every other character of these patterns
  matches itself. The whole name must match.
\<close>

fun fnmatch :: "string \<Rightarrow> string \<Rightarrow> bool" where
  "fnmatch [] [] = True"
| "fnmatch (c # cs) [] = False"
| "fnmatch [] (p # ps) = (p = CHR ''*'' \<and> fnmatch [] ps)"
| "fnmatch (c # cs) (p # ps) =
     (if p = CHR ''*'' then fnmatch (c # cs) ps \<or> fnmatch cs (p # ps)
      else c = p \<and> fnmatch cs ps)"

definition pats :: "string list" where
  "pats =
     [''Payload/*.app/Info.plist'',
      ''Payload/**/*.app/Info.plist'',
      ''Payload/**/*.appex/Info.plist'']"

text \<open>
  An opened archive: its members in the order of the archive, each with what
  \<^verbatim>\<open>plistlib.loads(z.read(name))\<close> does on it: \<open>Inl msg\<close> when an exception with the message
  \<open>msg\<close> is raised, \<open>Inr v\<close> when the value \<open>v\<close> is returned. An archive can hold a name more
  than once; \<^verbatim>\<open>namelist\<close> then lists it each time and \<^verbatim>\<open>read\<close> takes the last member.
\<close>

type_synonym archive = "(string \<times> (string + pval)) list"

definition namelist :: "archive \<Rightarrow> string list" where
  "namelist z = map fst z"

text \<open>The loop of lines 75 to 79.\<close>

fun ordered_loop :: "string list \<Rightarrow> string set \<Rightarrow> string list \<Rightarrow> string list" where
  "ordered_loop [] seen ordered = ordered"
| "ordered_loop (p # out) seen ordered =
     (if p \<notin> seen then ordered_loop out (insert p seen) (ordered @ [p])
      else ordered_loop out seen ordered)"

definition find_all_info_plists :: "archive \<Rightarrow> string list" where
  "find_all_info_plists z =
     (let out = filter (\<lambda>name. list_ex (\<lambda>p. fnmatch name p) pats) (namelist z)
      in ordered_loop out {} [])"

definition parse_plist :: "archive \<Rightarrow> string \<Rightarrow> string + pval" where
  "parse_plist z path =
     (case map_of (rev z) path of
        Some c \<Rightarrow> c
      | None \<Rightarrow> Inl ''KeyError'')"

section \<open>\<^verbatim>\<open>run\<close>\<close>

record result = summary +
  info_plist :: string

text \<open>
  The lines written to standard error: \<^verbatim>\<open>Info.plist not found in IPA.\<close>,
  \<^verbatim>\<open>Warning: Could not parse {p}: {e}\<close> and \<^verbatim>\<open>Error opening IPA: {e}\<close>.
\<close>

datatype diagnostic =
    InfoPlistNotFound
  | CouldNotParse string string
  | ErrorOpeningIPA exn

record run_out =
  stderr :: "diagnostic list"
  results :: "result list"
  exit_code :: int

text \<open>
  The loop of lines 108 to 115. An exception of \<^verbatim>\<open>parse_plist\<close> is caught, reported and
  the member skipped; \<^verbatim>\<open>summarize_pl\<close> is called outside the \<^verbatim>\<open>try\<close>, so its exception
  leaves the loop.
\<close>

fun parse_loop ::
  "archive \<Rightarrow> string list \<Rightarrow> diagnostic list \<times> result list \<Rightarrow>
     exn + (diagnostic list \<times> result list)"
where
  "parse_loop z [] (errs, rs) = Inr (errs, rs)"
| "parse_loop z (p # ps) (errs, rs) =
     (case parse_plist z p of
        Inl e \<Rightarrow> parse_loop z ps (errs @ [CouldNotParse p e], rs)
      | Inr pl \<Rightarrow>
          (case summarize_pl pl of
             Inl x \<Rightarrow> Inl x
           | Inr s \<Rightarrow>
               parse_loop z ps
                 (errs, rs @ [\<lparr> top_level = top_level s, domains = domains s, info_plist = p \<rparr>])))"

text \<open>
  \<^verbatim>\<open>json.dumps\<close> raises \<^verbatim>\<open>TypeError\<close> on bytes and dates; every other value of a property
  list has a JSON form (the keys of the dictionaries are strings).
\<close>

fun json_ok :: "pval \<Rightarrow> bool" where
  "json_ok (PData bs) = False"
| "json_ok (PDate t) = False"
| "json_ok (PList xs) = (\<forall>x \<in> set xs. json_ok x)"
| "json_ok (PDict kvs) = (\<forall>kv \<in> set kvs. json_ok (snd kv))"
| "json_ok v = True"

definition json_ok_row :: "row \<Rightarrow> bool" where
  "json_ok_row d =
     (json_ok (NSExceptionAllowsInsecureHTTPLoads d) \<and>
      json_ok (NSTemporaryExceptionAllowsInsecureHTTPLoads d) \<and>
      json_ok (NSIncludesSubdomains d) \<and>
      json_ok (NSRequiresCertificateTransparency d) \<and>
      json_ok (NSExceptionMinimumTLSVersion d) \<and>
      json_ok (NSTemporaryExceptionMinimumTLSVersion d) \<and>
      json_ok (NSExceptionRequiresForwardSecrecy d) \<and>
      json_ok (NSTemporaryExceptionRequiresForwardSecrecy d) \<and>
      json_ok (MinimumTLSVersionEffective d))"

definition json_ok_result :: "result \<Rightarrow> bool" where
  "json_ok_result r =
     (list_all (\<lambda>kv. json_ok (snd kv)) (top_level r) \<and> list_all json_ok_row (domains r))"

text \<open>
  The file system maps a path to what lies there: a zip archive, a file that is not one, a
  file that the process may not read, or a directory. \<^verbatim>\<open>zipfile.ZipFile(path)\<close> raises
  \<^verbatim>\<open>FileNotFoundError\<close> where there is nothing, \<^verbatim>\<open>BadZipFile\<close> on a file that is not an
  archive, \<^verbatim>\<open>PermissionError\<close> on an unreadable file and \<^verbatim>\<open>IsADirectoryError\<close> on a
  directory; the last two stand for every \<^verbatim>\<open>OSError\<close> other than \<^verbatim>\<open>FileNotFoundError\<close>.
\<close>

datatype ipa_file = ZipArchive archive | NotAZip | Unreadable | Directory

type_synonym filesystem = "(string \<times> ipa_file) list"

definition ZipFile :: "filesystem \<Rightarrow> string \<Rightarrow> exn + archive" where
  "ZipFile fs path =
     (case map_of fs path of
        None \<Rightarrow> Inl FileNotFoundError
      | Some NotAZip \<Rightarrow> Inl BadZipFile
      | Some Unreadable \<Rightarrow> Inl PermissionError
      | Some Directory \<Rightarrow> Inl IsADirectoryError
      | Some (ZipArchive z) \<Rightarrow> Inr z)"

text \<open>Lines 120 to 124: the filter applies when \<^verbatim>\<open>filter_domain\<close> is a non-empty string.\<close>

definition filter_results :: "string option \<Rightarrow> result list \<Rightarrow> result list" where
  "filter_results filter_domain rs =
     (case filter_domain of
        None \<Rightarrow> rs
      | Some f \<Rightarrow>
          if f \<noteq> [] then map (\<lambda>r. r\<lparr>domains := filter (\<lambda>d. domain d = f) (domains r)\<rparr>) rs
          else rs)"

definition insecure_of :: "result list \<Rightarrow> bool" where
  "insecure_of rs = list_ex (\<lambda>r. list_ex effective_http_permitted (domains r)) rs"

text \<open>
  \<^verbatim>\<open>run\<close> returns the exit status, or ends with an exception that nothing catches (the
  interpreter then prints a traceback and the process exits with status 1). Of the exceptions
  of the \<^verbatim>\<open>with\<close> block only \<^verbatim>\<open>BadZipFile\<close> and \<^verbatim>\<open>FileNotFoundError\<close> are caught.
  Standard output is not modelled beyond the results that it shows: in JSON mode they go
  through \<^verbatim>\<open>json.dumps\<close>, and \<^verbatim>\<open>color_mode\<close> changes only the escape sequences printed.
  The integers of a manifest are taken to be within the interpreter's limit for the
  conversion of an integer to a decimal string, so that printing one raises nothing.
\<close>

definition run :: "filesystem \<Rightarrow> string \<Rightarrow> string option \<Rightarrow> bool \<Rightarrow> string \<Rightarrow> exn + run_out" where
  "run fs ipa_path filter_domain json_mode color_mode =
     (case ZipFile fs ipa_path of
        Inl e \<Rightarrow>
          if e = BadZipFile \<or> e = FileNotFoundError
          then Inr \<lparr> stderr = [ErrorOpeningIPA e], results = [], exit_code = 3 \<rparr>
          else Inl e
      | Inr z \<Rightarrow>
          (let plist_paths = find_all_info_plists z in
           if plist_paths = []
           then Inr \<lparr> stderr = [InfoPlistNotFound], results = [], exit_code = 3 \<rparr>
           else
             (case parse_loop z plist_paths ([], []) of
                Inl e \<Rightarrow> Inl e
              | Inr (errs, rs) \<Rightarrow>
                  (let rs' = filter_results filter_domain rs;
                       insecure = insecure_of rs'
                   in if json_mode \<and> \<not> list_all json_ok_result rs' then Inl TypeError
                      else Inr \<lparr> stderr = errs, results = rs',
                                 exit_code = (if insecure then 2 else 0) \<rparr>))))"

section \<open>Example manifests\<close>

text \<open>
  A manifest with the bundle-wide flag set and one domain that sets its own flag to false,
  and the summary that \<^verbatim>\<open>summarize_pl\<close> returns for it.
\<close>

definition ex_override_manifest :: pval where
  "ex_override_manifest =
     PDict [(''NSAppTransportSecurity'',
       PDict [(''NSAllowsArbitraryLoads'', PBool True),
              (''NSExceptionDomains'',
                 PDict [(''example.com'',
                   PDict [(''NSExceptionAllowsInsecureHTTPLoads'', PBool False)])])])]"

definition ex_override_row :: row where
  "ex_override_row =
     \<lparr> domain = ''example.com'',
       NSExceptionAllowsInsecureHTTPLoads = PBool False,
       NSTemporaryExceptionAllowsInsecureHTTPLoads = PNone,
       NSIncludesSubdomains = PNone,
       NSRequiresCertificateTransparency = PNone,
       NSExceptionMinimumTLSVersion = PNone,
       NSTemporaryExceptionMinimumTLSVersion = PNone,
       NSExceptionRequiresForwardSecrecy = PNone,
       NSTemporaryExceptionRequiresForwardSecrecy = PNone,
       effective_http_permitted = True,
       MinimumTLSVersionEffective = PNone \<rparr>"

definition ex_override_summary :: summary where
  "ex_override_summary =
     \<lparr> top_level = [(''NSAllowsArbitraryLoads'', PBool True),
                     (''NSAllowsArbitraryLoadsInWebContent'', PNone),
                     (''NSAllowsArbitraryLoadsForMedia'', PNone)],
       domains = [ex_override_row] \<rparr>"

text \<open>A manifest whose one domain sets both minimum TLS versions, to different values.\<close>

definition ex_tls_manifest :: pval where
  "ex_tls_manifest =
     PDict [(''NSAppTransportSecurity'',
       PDict [(''NSExceptionDomains'',
         PDict [(''tls.example.org'',
           PDict [(''NSExceptionMinimumTLSVersion'', PStr ''TLSv1.3''),
                  (''NSTemporaryExceptionMinimumTLSVersion'', PStr ''TLSv1.0'')])])])]"

definition ex_tls_row :: row where
  "ex_tls_row =
     \<lparr> domain = ''tls.example.org'',
       NSExceptionAllowsInsecureHTTPLoads = PNone,
       NSTemporaryExceptionAllowsInsecureHTTPLoads = PNone,
       NSIncludesSubdomains = PNone,
       NSRequiresCertificateTransparency = PNone,
       NSExceptionMinimumTLSVersion = PStr ''TLSv1.3'',
       NSTemporaryExceptionMinimumTLSVersion = PStr ''TLSv1.0'',
       NSExceptionRequiresForwardSecrecy = PNone,
       NSTemporaryExceptionRequiresForwardSecrecy = PNone,
       effective_http_permitted = False,
       MinimumTLSVersionEffective = PStr ''TLSv1.3'' \<rparr>"

definition ex_tls_summary :: summary where
  "ex_tls_summary =
     \<lparr> top_level = [(''NSAllowsArbitraryLoads'', PNone),
                     (''NSAllowsArbitraryLoadsInWebContent'', PNone),
                     (''NSAllowsArbitraryLoadsForMedia'', PNone)],
       domains = [ex_tls_row] \<rparr>"

text \<open>
  The entries of a network-security section that does not declare the bundle-wide flag, and
  the same section after \<^verbatim>\<open>ats["NSAllowsArbitraryLoads"] = False\<close>.
\<close>

definition ex_undeclared_section :: "(string \<times> pval) list" where
  "ex_undeclared_section =
     [(''NSExceptionDomains'',
        PDict [(''example.com'',
          PDict [(''NSExceptionAllowsInsecureHTTPLoads'', PBool True)])])]"

definition ex_false_section :: "(string \<times> pval) list" where
  "ex_false_section = ex_undeclared_section @ [(''NSAllowsArbitraryLoads'', PBool False)]"

text \<open>
  An archive of five members. One name occurs twice, one member cannot be decoded, and one
  extension lies directly under \<^verbatim>\<open>Payload/\<close>. The file system holds it at \<^verbatim>\<open>app.ipa\<close>,
  and \<open>ex_out\<close> is what \<^verbatim>\<open>run\<close> returns on it without a filter.
\<close>

definition ex_archive :: archive where
  "ex_archive =
     [(''Payload/x/B.app/Info.plist'', Inr (PDict [])),
      (''Payload/A.app/Info.plist'', Inr ex_override_manifest),
      (''Payload/A.app/PlugIns/E.appex/Info.plist'', Inl ''Invalid file''),
      (''Payload/E.appex/Info.plist'', Inr (PDict [])),
      (''Payload/x/B.app/Info.plist'', Inr ex_tls_manifest)]"

definition ex_fs :: filesystem where
  "ex_fs = [(''app.ipa'', ZipArchive ex_archive), (''notes.txt'', NotAZip)]"

definition ex_results :: "result list" where
  "ex_results =
     [\<lparr> top_level = top_level ex_tls_summary, domains = domains ex_tls_summary,
         info_plist = ''Payload/x/B.app/Info.plist'' \<rparr>,
      \<lparr> top_level = top_level ex_override_summary, domains = domains ex_override_summary,
         info_plist = ''Payload/A.app/Info.plist'' \<rparr>]"

definition ex_out :: run_out where
  "ex_out =
     \<lparr> stderr = [CouldNotParse ''Payload/A.app/PlugIns/E.appex/Info.plist'' ''Invalid file''],
       results = ex_results,
       exit_code = 2 \<rparr>"

text \<open>An archive whose only manifest cannot be decoded.\<close>

definition ex_broken_archive :: archive where
  "ex_broken_archive = [(''Payload/A.app/Info.plist'', Inl ''Invalid file'')]"

definition ex_broken_fs :: filesystem where
  "ex_broken_fs = [(''app.ipa'', ZipArchive ex_broken_archive)]"

text \<open>An archive whose two manifests have no network-security section.\<close>

definition ex_plain_archive :: archive where
  "ex_plain_archive =
     [(''Payload/A.app/Info.plist'', Inr (PDict [(''CFBundleName'', PStr ''App'')])),
      (''Payload/A.app/PlugIns/E.appex/Info.plist'', Inr (PDict []))]"

definition ex_plain_fs :: filesystem where
  "ex_plain_fs = [(''app.ipa'', ZipArchive ex_plain_archive)]"





section \<open>The rows of a summary\<close>

lemma make_row_Inr_iff: "(\<exists>r. make_row t n cfg = Inr r) \<longleftrightarrow> (\<exists>ce. cfg = PDict ce)"
  by (cases cfg) (simp_all add: make_row_def Let_def)

lemma make_row_Inl: "make_row t n cfg = Inl e \<Longrightarrow> e = AttributeError"
  by (cases cfg) (simp_all add: make_row_def Let_def)

lemma make_row_domain: "make_row t n cfg = Inr r \<Longrightarrow> domain r = n"
  by (cases cfg) (auto simp add: make_row_def Let_def)

lemma domain_rows_Inl: "domain_rows t items = Inl e \<Longrightarrow> e = AttributeError"
proof (induction t items rule: domain_rows.induct)
  case (1 t)
  then show ?case by simp
next
  case (2 t dname cfg rest)
  then show ?case
    by (auto split: sum.splits dest: make_row_Inl)
qed

lemma domain_rows_Inr_iff:
  "(\<exists>rs. domain_rows t items = Inr rs) \<longleftrightarrow> (\<forall>kv \<in> set items. \<exists>ce. snd kv = PDict ce)"
proof (induction t items rule: domain_rows.induct)
  case (1 t)
  then show ?case by simp
next
  case (2 t dname cfg rest)
  show ?case
  proof (cases "make_row t dname cfg")
    case (Inl e)
    then have "\<not> (\<exists>ce. cfg = PDict ce)"
      using make_row_Inr_iff [of t dname cfg] by auto
    with Inl show ?thesis by auto
  next
    case (Inr r)
    then have "\<exists>ce. cfg = PDict ce"
      using make_row_Inr_iff [of t dname cfg] by auto
    with Inr 2 show ?thesis by (auto split: sum.splits)
  qed
qed

lemma domain_rows_member:
  "domain_rows t items = Inr rs \<Longrightarrow> d \<in> set rs \<Longrightarrow>
     \<exists>cfg. (domain d, cfg) \<in> set items \<and> make_row t (domain d) cfg = Inr d"
proof (induction t items arbitrary: rs rule: domain_rows.induct)
  case (1 t)
  then show ?case by simp
next
  case (2 t dname cfg rest)
  from "2.prems"(1) obtain r rs' where r: "make_row t dname cfg = Inr r"
    and rs': "domain_rows t rest = Inr rs'" and rs: "rs = r # rs'"
    by (auto split: sum.splits)
  show ?case
  proof (cases "d = r")
    case True
    with r make_row_domain [OF r] show ?thesis by auto
  next
    case False
    with "2.prems"(2) rs have "d \<in> set rs'" by simp
    from "2.IH" [OF r rs' this] show ?thesis by auto
  qed
qed

lemma domain_rows_map_domain:
  "domain_rows t items = Inr rs \<Longrightarrow> map domain rs = map fst items"
proof (induction t items arbitrary: rs rule: domain_rows.induct)
  case (1 t)
  then show ?case by simp
next
  case (2 t dname cfg rest)
  then show ?case
    by (auto split: sum.splits dest: make_row_domain)
qed

lemma summarize_pl_Inr:
  assumes "summarize_pl pl = Inr s"
  shows "\<exists>pe ae ee. pl = PDict pe \<and> ats_of pe = PDict ae \<and> exc_of ae = PDict ee \<and>
           top_level s = top_of ae \<and> domain_rows (top_of ae) (sort_key fst ee) = Inr (domains s)"
  using assms
  by (auto simp add: summarize_pl_def split: pval.splits sum.splits)

lemma summarize_pl_Inl: "summarize_pl pl = Inl e \<Longrightarrow> e = AttributeError"
  by (auto simp add: summarize_pl_def split: pval.splits sum.splits dest: domain_rows_Inl)

lemma row_origin:
  assumes "summarize_pl pl = Inr s" and "d \<in> set (domains s)"
  shows "\<exists>pe ae ee ce. pl = PDict pe \<and> ats_of pe = PDict ae \<and> exc_of ae = PDict ee \<and>
           (domain d, PDict ce) \<in> set ee \<and> make_row (top_of ae) (domain d) (PDict ce) = Inr d"
proof -
  from summarize_pl_Inr [OF assms(1)] obtain pe ae ee where
    pl: "pl = PDict pe" and ats: "ats_of pe = PDict ae" and exc: "exc_of ae = PDict ee"
    and rows: "domain_rows (top_of ae) (sort_key fst ee) = Inr (domains s)"
    by blast
  from domain_rows_member [OF rows assms(2)] obtain cfg where
    mem: "(domain d, cfg) \<in> set (sort_key fst ee)"
    and row: "make_row (top_of ae) (domain d) cfg = Inr d"
    by blast
  from row obtain ce where "cfg = PDict ce"
    using make_row_Inr_iff [of "top_of ae" "domain d" cfg] by auto
  with pl ats exc mem row show ?thesis by auto
qed

lemma make_row_eq:
  "make_row t n (PDict ce) = Inr d \<longleftrightarrow>
   d = \<lparr> domain = n,
         NSExceptionAllowsInsecureHTTPLoads = dict_get ce ''NSExceptionAllowsInsecureHTTPLoads'' PNone,
         NSTemporaryExceptionAllowsInsecureHTTPLoads =
           dict_get ce ''NSTemporaryExceptionAllowsInsecureHTTPLoads'' PNone,
         NSIncludesSubdomains = dict_get ce ''NSIncludesSubdomains'' PNone,
         NSRequiresCertificateTransparency = dict_get ce ''NSRequiresCertificateTransparency'' PNone,
         NSExceptionMinimumTLSVersion = dict_get ce ''NSExceptionMinimumTLSVersion'' PNone,
         NSTemporaryExceptionMinimumTLSVersion =
           dict_get ce ''NSTemporaryExceptionMinimumTLSVersion'' PNone,
         NSExceptionRequiresForwardSecrecy = dict_get ce ''NSExceptionRequiresForwardSecrecy'' PNone,
         NSTemporaryExceptionRequiresForwardSecrecy =
           dict_get ce ''NSTemporaryExceptionRequiresForwardSecrecy'' PNone,
         effective_http_permitted =
           ((py_bool (dict_get ce ''NSExceptionAllowsInsecureHTTPLoads'' PNone) \<or>
             py_bool (dict_get ce ''NSTemporaryExceptionAllowsInsecureHTTPLoads'' PNone)) \<or>
            py_bool (dict_get t ''NSAllowsArbitraryLoads'' PNone)),
         MinimumTLSVersionEffective =
           py_or (dict_get ce ''NSExceptionMinimumTLSVersion'' PNone)
             (dict_get ce ''NSTemporaryExceptionMinimumTLSVersion'' PNone) \<rparr>"
  unfolding make_row_def Let_def pval.case sum.inject by (rule eq_commute)

lemma make_row_effective:
  assumes "make_row t n (PDict ce) = Inr d"
  shows "effective_http_permitted d =
           (py_bool (dict_get ce ''NSExceptionAllowsInsecureHTTPLoads'' PNone) \<or>
            py_bool (dict_get ce ''NSTemporaryExceptionAllowsInsecureHTTPLoads'' PNone) \<or>
            py_bool (dict_get t ''NSAllowsArbitraryLoads'' PNone))"
  unfolding assms [unfolded make_row_eq] by simp

lemma make_row_min_tls:
  assumes "make_row t n (PDict ce) = Inr d"
  shows "MinimumTLSVersionEffective d =
           py_or (dict_get ce ''NSExceptionMinimumTLSVersion'' PNone)
             (dict_get ce ''NSTemporaryExceptionMinimumTLSVersion'' PNone)"
  unfolding assms [unfolded make_row_eq] by simp

lemma top_of_global:
  "dict_get (top_of ae) ''NSAllowsArbitraryLoads'' PNone = dict_get ae ''NSAllowsArbitraryLoads'' PNone"
  by (simp add: top_of_def ATS_TOP_KEYS_def dict_get_def)

section \<open>The effective permission of a domain\<close>

text \<open>
  Claim C1, as the code has it. For every decoded manifest and every row of its summary, the
  row comes from one entry of the exception domains, and \<^verbatim>\<open>effective_http_permitted\<close> is
  the disjunction of three truthiness tests (\<^verbatim>\<open>bool(v)\<close>): on the domain's
  \<^verbatim>\<open>NSExceptionAllowsInsecureHTTPLoads\<close>, on its legacy alias and on the bundle-wide
  \<^verbatim>\<open>NSAllowsArbitraryLoads\<close>. In particular it is true whenever the bundle-wide flag is
  \<^verbatim>\<open>True\<close>, whatever the domain says. The tests succeed on every true value (a non-empty
  string, a non-zero number), not only on the boolean \<^verbatim>\<open>True\<close>.
\<close>

theorem effective_http_permitted_truthy_or:
  assumes "summarize_pl pl = Inr s" and "d \<in> set (domains s)"
  shows "\<exists>pe ae ee ce. pl = PDict pe \<and> ats_of pe = PDict ae \<and> exc_of ae = PDict ee \<and>
           (domain d, PDict ce) \<in> set ee \<and>
           effective_http_permitted d =
             (py_bool (dict_get ce ''NSExceptionAllowsInsecureHTTPLoads'' PNone) \<or>
              py_bool (dict_get ce ''NSTemporaryExceptionAllowsInsecureHTTPLoads'' PNone) \<or>
              py_bool (dict_get ae ''NSAllowsArbitraryLoads'' PNone)) \<and>
           (dict_get ae ''NSAllowsArbitraryLoads'' PNone = PBool True \<longrightarrow> effective_http_permitted d)"
proof -
  from row_origin [OF assms] obtain pe ae ee ce where
    o: "pl = PDict pe" "ats_of pe = PDict ae" "exc_of ae = PDict ee" "(domain d, PDict ce) \<in> set ee"
    and row: "make_row (top_of ae) (domain d) (PDict ce) = Inr d"
    by blast
  have "effective_http_permitted d =
             (py_bool (dict_get ce ''NSExceptionAllowsInsecureHTTPLoads'' PNone) \<or>
              py_bool (dict_get ce ''NSTemporaryExceptionAllowsInsecureHTTPLoads'' PNone) \<or>
              py_bool (dict_get ae ''NSAllowsArbitraryLoads'' PNone))"
    using make_row_effective [OF row] by (simp only: top_of_global)
  then have "effective_http_permitted d =
             (py_bool (dict_get ce ''NSExceptionAllowsInsecureHTTPLoads'' PNone) \<or>
              py_bool (dict_get ce ''NSTemporaryExceptionAllowsInsecureHTTPLoads'' PNone) \<or>
              py_bool (dict_get ae ''NSAllowsArbitraryLoads'' PNone)) \<and>
           (dict_get ae ''NSAllowsArbitraryLoads'' PNone = PBool True \<longrightarrow> effective_http_permitted d)"
    by simp
  with o show ?thesis by blast
qed

text \<open>
  The theorem at a manifest whose bundle-wide flag is \<^verbatim>\<open>True\<close> and whose domain sets its
  own flag to \<^verbatim>\<open>False\<close>.
\<close>

theorem effective_http_permitted_truthy_or_witness:
  "summarize_pl ex_override_manifest = Inr ex_override_summary \<and>
   ex_override_row \<in> set (domains ex_override_summary) \<and>
   (\<exists>pe ae ee ce. ex_override_manifest = PDict pe \<and> ats_of pe = PDict ae \<and>
      exc_of ae = PDict ee \<and> (domain ex_override_row, PDict ce) \<in> set ee \<and>
      effective_http_permitted ex_override_row =
        (py_bool (dict_get ce ''NSExceptionAllowsInsecureHTTPLoads'' PNone) \<or>
         py_bool (dict_get ce ''NSTemporaryExceptionAllowsInsecureHTTPLoads'' PNone) \<or>
         py_bool (dict_get ae ''NSAllowsArbitraryLoads'' PNone)) \<and>
      (dict_get ae ''NSAllowsArbitraryLoads'' PNone = PBool True \<longrightarrow>
         effective_http_permitted ex_override_row))"
proof -
  have h1: "summarize_pl ex_override_manifest = Inr ex_override_summary"
    by (simp add: ex_override_manifest_def ex_override_summary_def ex_override_row_def
          summarize_pl_def ats_of_def exc_of_def top_of_def dict_get_def py_or_def
          ATS_TOP_KEYS_def make_row_def Let_def)
  have h2: "ex_override_row \<in> set (domains ex_override_summary)"
    by (simp add: ex_override_summary_def)
  from h1 h2 effective_http_permitted_truthy_or [OF h1 h2] show ?thesis
    by (intro conjI)
qed

text \<open>
  Against C1 as stated: the string \<^verbatim>\<open>"NO"\<close> is not the boolean \<^verbatim>\<open>True\<close>, no other flag is
  set, and the domain's \<^verbatim>\<open>effective_http_permitted\<close> is true.
\<close>

theorem effective_http_permitted_string_flag:
  "summarize_pl
     (PDict [(''NSAppTransportSecurity'',
        PDict [(''NSExceptionDomains'',
          PDict [(''example.com'',
            PDict [(''NSExceptionAllowsInsecureHTTPLoads'', PStr ''NO'')])])])]) =
   Inr \<lparr> top_level = [(''NSAllowsArbitraryLoads'', PNone),
                       (''NSAllowsArbitraryLoadsInWebContent'', PNone),
                       (''NSAllowsArbitraryLoadsForMedia'', PNone)],
          domains = [\<lparr> domain = ''example.com'',
                       NSExceptionAllowsInsecureHTTPLoads = PStr ''NO'',
                       NSTemporaryExceptionAllowsInsecureHTTPLoads = PNone,
                       NSIncludesSubdomains = PNone,
                       NSRequiresCertificateTransparency = PNone,
                       NSExceptionMinimumTLSVersion = PNone,
                       NSTemporaryExceptionMinimumTLSVersion = PNone,
                       NSExceptionRequiresForwardSecrecy = PNone,
                       NSTemporaryExceptionRequiresForwardSecrecy = PNone,
                       effective_http_permitted = True,
                       MinimumTLSVersionEffective = PNone \<rparr>] \<rparr>
   \<and> \<not> (PStr ''NO'' = PBool True \<or> PNone = PBool True \<or> PNone = PBool True)"
  by (simp add: summarize_pl_def ats_of_def exc_of_def top_of_def dict_get_def py_or_def
        ATS_TOP_KEYS_def make_row_def Let_def)

section \<open>The effective minimum TLS version\<close>

text \<open>
  Claim C7, as the code has it. For every row, \<^verbatim>\<open>MinimumTLSVersionEffective\<close> is
  \<^verbatim>\<open>canonical or legacy\<close>: the value of \<^verbatim>\<open>NSExceptionMinimumTLSVersion\<close> when that value is
  true (a non-empty string, say), and otherwise the value of the legacy key, which is
  \<^verbatim>\<open>None\<close> when the legacy key is absent. So a true canonical value wins over any legacy
  value, and a canonical key that is present with an empty or zero value does not.
\<close>

theorem minimum_tls_effective_or:
  assumes "summarize_pl pl = Inr s" and "d \<in> set (domains s)"
  shows "\<exists>pe ae ee ce. pl = PDict pe \<and> ats_of pe = PDict ae \<and> exc_of ae = PDict ee \<and>
           (domain d, PDict ce) \<in> set ee \<and>
           MinimumTLSVersionEffective d =
             (if py_bool (dict_get ce ''NSExceptionMinimumTLSVersion'' PNone)
              then dict_get ce ''NSExceptionMinimumTLSVersion'' PNone
              else dict_get ce ''NSTemporaryExceptionMinimumTLSVersion'' PNone)"
proof -
  from row_origin [OF assms] obtain pe ae ee ce where
    o: "pl = PDict pe" "ats_of pe = PDict ae" "exc_of ae = PDict ee" "(domain d, PDict ce) \<in> set ee"
    and row: "make_row (top_of ae) (domain d) (PDict ce) = Inr d"
    by blast
  have "MinimumTLSVersionEffective d =
             (if py_bool (dict_get ce ''NSExceptionMinimumTLSVersion'' PNone)
              then dict_get ce ''NSExceptionMinimumTLSVersion'' PNone
              else dict_get ce ''NSTemporaryExceptionMinimumTLSVersion'' PNone)"
    using make_row_min_tls [OF row] by (simp only: py_or_def)
  with o show ?thesis by blast
qed

text \<open>The theorem at a domain with both keys set, to different versions.\<close>

theorem minimum_tls_effective_or_witness:
  "summarize_pl ex_tls_manifest = Inr ex_tls_summary \<and>
   ex_tls_row \<in> set (domains ex_tls_summary) \<and>
   (\<exists>pe ae ee ce. ex_tls_manifest = PDict pe \<and> ats_of pe = PDict ae \<and>
      exc_of ae = PDict ee \<and> (domain ex_tls_row, PDict ce) \<in> set ee \<and>
      MinimumTLSVersionEffective ex_tls_row =
        (if py_bool (dict_get ce ''NSExceptionMinimumTLSVersion'' PNone)
         then dict_get ce ''NSExceptionMinimumTLSVersion'' PNone
         else dict_get ce ''NSTemporaryExceptionMinimumTLSVersion'' PNone))"
proof -
  have h1: "summarize_pl ex_tls_manifest = Inr ex_tls_summary"
    by (simp add: ex_tls_manifest_def ex_tls_summary_def ex_tls_row_def
          summarize_pl_def ats_of_def exc_of_def top_of_def dict_get_def py_or_def
          ATS_TOP_KEYS_def make_row_def Let_def)
  have h2: "ex_tls_row \<in> set (domains ex_tls_summary)"
    by (simp add: ex_tls_summary_def)
  from h1 h2 minimum_tls_effective_or [OF h1 h2] show ?thesis
    by (intro conjI)
qed

text \<open>
  Against C7 as stated: the canonical key is present, with the empty string, and the
  effective version is the legacy one.
\<close>

theorem minimum_tls_effective_empty_canonical:
  "summarize_pl
     (PDict [(''NSAppTransportSecurity'',
        PDict [(''NSExceptionDomains'',
          PDict [(''example.com'',
            PDict [(''NSExceptionMinimumTLSVersion'', PStr []),
                   (''NSTemporaryExceptionMinimumTLSVersion'', PStr ''TLSv1.2'')])])])]) =
   Inr \<lparr> top_level = [(''NSAllowsArbitraryLoads'', PNone),
                       (''NSAllowsArbitraryLoadsInWebContent'', PNone),
                       (''NSAllowsArbitraryLoadsForMedia'', PNone)],
          domains = [\<lparr> domain = ''example.com'',
                       NSExceptionAllowsInsecureHTTPLoads = PNone,
                       NSTemporaryExceptionAllowsInsecureHTTPLoads = PNone,
                       NSIncludesSubdomains = PNone,
                       NSRequiresCertificateTransparency = PNone,
                       NSExceptionMinimumTLSVersion = PStr [],
                       NSTemporaryExceptionMinimumTLSVersion = PStr ''TLSv1.2'',
                       NSExceptionRequiresForwardSecrecy = PNone,
                       NSTemporaryExceptionRequiresForwardSecrecy = PNone,
                       effective_http_permitted = False,
                       MinimumTLSVersionEffective = PStr ''TLSv1.2'' \<rparr>] \<rparr>
   \<and> map_of [(''NSExceptionMinimumTLSVersion'', PStr []),
              (''NSTemporaryExceptionMinimumTLSVersion'', PStr ''TLSv1.2'')]
        ''NSExceptionMinimumTLSVersion'' = Some (PStr [])
   \<and> PStr ''TLSv1.2'' \<noteq> PStr []"
  by (simp add: summarize_pl_def ats_of_def exc_of_def top_of_def dict_get_def py_or_def
        ATS_TOP_KEYS_def make_row_def Let_def)

section \<open>The verdict over a list of results\<close>

lemma insecure_of_append:
  "insecure_of (rs @ rs') \<longleftrightarrow> insecure_of rs \<or> insecure_of rs'"
  by (auto simp add: insecure_of_def list_ex_iff)

lemma insecure_of_Cons:
  "insecure_of (r # rs) \<longleftrightarrow> list_ex effective_http_permitted (domains r) \<or> insecure_of rs"
  by (simp add: insecure_of_def)

section \<open>When \<^verbatim>\<open>summarize_pl\<close> returns\<close>

lemma ats_of_dict_iff:
  "(\<exists>ae. ats_of pe = PDict ae) \<longleftrightarrow>
     (case map_of pe ''NSAppTransportSecurity'' of
        None \<Rightarrow> True
      | Some v \<Rightarrow> \<not> py_bool v \<or> (\<exists>ae. v = PDict ae))"
  by (auto simp add: ats_of_def py_or_def dict_get_def split: option.splits)

lemma exc_of_dict_iff:
  "(\<exists>ee. exc_of ae = PDict ee) \<longleftrightarrow>
     (case map_of ae ''NSExceptionDomains'' of
        None \<Rightarrow> True
      | Some v \<Rightarrow> \<not> py_bool v \<or> (\<exists>ee. v = PDict ee))"
  by (auto simp add: exc_of_def py_or_def dict_get_def split: option.splits)

lemma summarize_pl_Inr_iff:
  "(\<exists>s. summarize_pl (PDict pe) = Inr s) \<longleftrightarrow>
     (\<exists>ae ee. ats_of pe = PDict ae \<and> exc_of ae = PDict ee \<and>
        (\<forall>kv \<in> set ee. \<exists>ce. snd kv = PDict ce))"
proof
  assume "\<exists>s. summarize_pl (PDict pe) = Inr s"
  then obtain s where s: "summarize_pl (PDict pe) = Inr s" ..
  from summarize_pl_Inr [OF s] obtain ae ee where
    ats: "ats_of pe = PDict ae" and exc: "exc_of ae = PDict ee"
    and rows: "domain_rows (top_of ae) (sort_key fst ee) = Inr (domains s)"
    by auto
  from rows have "\<forall>kv \<in> set (sort_key fst ee). \<exists>ce. snd kv = PDict ce"
    using domain_rows_Inr_iff [of "top_of ae" "sort_key fst ee"] by blast
  then have "\<forall>kv \<in> set ee. \<exists>ce. snd kv = PDict ce" by simp
  with ats exc show "\<exists>ae ee. ats_of pe = PDict ae \<and> exc_of ae = PDict ee \<and>
        (\<forall>kv \<in> set ee. \<exists>ce. snd kv = PDict ce)"
    by blast
next
  assume "\<exists>ae ee. ats_of pe = PDict ae \<and> exc_of ae = PDict ee \<and>
        (\<forall>kv \<in> set ee. \<exists>ce. snd kv = PDict ce)"
  then obtain ae ee where ats: "ats_of pe = PDict ae" and exc: "exc_of ae = PDict ee"
    and cfgs: "\<forall>kv \<in> set ee. \<exists>ce. snd kv = PDict ce"
    by blast
  from cfgs have "\<forall>kv \<in> set (sort_key fst ee). \<exists>ce. snd kv = PDict ce" by simp
  then obtain rs where "domain_rows (top_of ae) (sort_key fst ee) = Inr rs"
    using domain_rows_Inr_iff [of "top_of ae" "sort_key fst ee"] by blast
  with ats exc show "\<exists>s. summarize_pl (PDict pe) = Inr s"
    by (simp add: summarize_pl_def)
qed

text \<open>
  Claim C5, as the code has it. On a manifest that is a dictionary, \<^verbatim>\<open>summarize_pl\<close>
  returns a summary exactly when the value at \<^verbatim>\<open>NSAppTransportSecurity\<close> is absent, false
  (\<^verbatim>\<open>None\<close>, \<^verbatim>\<open>False\<close>, zero, empty) or a dictionary, the value at \<^verbatim>\<open>NSExceptionDomains\<close> is
  absent, false or a dictionary, and the value of every exception domain is a dictionary. In
  every other case, such as a non-empty string or a non-zero number at one of the two keys,
  it raises \<^verbatim>\<open>AttributeError\<close>.
\<close>

theorem summarize_pl_returns_iff:
  "((\<exists>s. summarize_pl (PDict pe) = Inr s) \<longleftrightarrow>
      (\<exists>ae ee. ats_of pe = PDict ae \<and> exc_of ae = PDict ee \<and>
         (\<forall>kv \<in> set ee. \<exists>ce. snd kv = PDict ce))) \<and>
   ((\<exists>ae. ats_of pe = PDict ae) \<longleftrightarrow>
      (case map_of pe ''NSAppTransportSecurity'' of
         None \<Rightarrow> True
       | Some v \<Rightarrow> \<not> py_bool v \<or> (\<exists>ae. v = PDict ae))) \<and>
   (\<forall>ae. (\<exists>ee. exc_of ae = PDict ee) \<longleftrightarrow>
      (case map_of ae ''NSExceptionDomains'' of
         None \<Rightarrow> True
       | Some v \<Rightarrow> \<not> py_bool v \<or> (\<exists>ee. v = PDict ee))) \<and>
   ((\<forall>s. summarize_pl (PDict pe) \<noteq> Inr s) \<longrightarrow> summarize_pl (PDict pe) = Inl AttributeError)"
proof (intro conjI allI impI)
  show "(\<exists>s. summarize_pl (PDict pe) = Inr s) \<longleftrightarrow>
      (\<exists>ae ee. ats_of pe = PDict ae \<and> exc_of ae = PDict ee \<and>
         (\<forall>kv \<in> set ee. \<exists>ce. snd kv = PDict ce))"
    by (rule summarize_pl_Inr_iff)
  show "(\<exists>ae. ats_of pe = PDict ae) \<longleftrightarrow>
      (case map_of pe ''NSAppTransportSecurity'' of
         None \<Rightarrow> True
       | Some v \<Rightarrow> \<not> py_bool v \<or> (\<exists>ae. v = PDict ae))"
    by (rule ats_of_dict_iff)
  show "(\<exists>ee. exc_of ae = PDict ee) \<longleftrightarrow>
      (case map_of ae ''NSExceptionDomains'' of
         None \<Rightarrow> True
       | Some v \<Rightarrow> \<not> py_bool v \<or> (\<exists>ee. v = PDict ee))" for ae
    by (rule exc_of_dict_iff)
  assume none: "\<forall>s. summarize_pl (PDict pe) \<noteq> Inr s"
  show "summarize_pl (PDict pe) = Inl AttributeError"
  proof (cases "summarize_pl (PDict pe)")
    case (Inl e)
    with summarize_pl_Inl [OF Inl] show ?thesis by simp
  next
    case (Inr s)
    with none show ?thesis by simp
  qed
qed

text \<open>
  The theorem at a manifest whose network-security value is the number zero, which is false
  and so stands for the empty section: a summary is returned.
\<close>

theorem summarize_pl_returns_iff_witness:
  "(\<exists>ae ee. ats_of [(''NSAppTransportSecurity'', PInt 0)] = PDict ae \<and> exc_of ae = PDict ee \<and>
      (\<forall>kv \<in> set ee. \<exists>ce. snd kv = PDict ce)) \<and>
   (\<exists>s. summarize_pl (PDict [(''NSAppTransportSecurity'', PInt 0)]) = Inr s)"
proof -
  have "ats_of [(''NSAppTransportSecurity'', PInt 0)] = PDict [] \<and> exc_of [] = PDict [] \<and>
      (\<forall>kv \<in> set ([] :: (string \<times> pval) list). \<exists>ce. snd kv = PDict ce)"
    by (simp add: ats_of_def exc_of_def dict_get_def py_or_def)
  then have h: "\<exists>ae ee. ats_of [(''NSAppTransportSecurity'', PInt 0)] = PDict ae \<and>
      exc_of ae = PDict ee \<and> (\<forall>kv \<in> set ee. \<exists>ce. snd kv = PDict ce)"
    by blast
  with summarize_pl_returns_iff [of "[(''NSAppTransportSecurity'', PInt 0)]"] show ?thesis
    by blast
qed

text \<open>
  Against C5 as stated: with a non-empty string at the network-security key, or a non-zero
  number at the exception-domains key, no summary is produced.
\<close>

theorem summarize_pl_raises_on_non_mapping:
  "summarize_pl (PDict [(''NSAppTransportSecurity'', PStr ''off'')]) = Inl AttributeError \<and>
   summarize_pl
     (PDict [(''NSAppTransportSecurity'', PDict [(''NSExceptionDomains'', PInt 1)])]) =
   Inl AttributeError"
  by (simp add: summarize_pl_def ats_of_def exc_of_def dict_get_def py_or_def)

section \<open>The bundle-wide flag: undeclared, false, true\<close>

lemma make_row_cong_top:
  assumes "py_bool (dict_get t ''NSAllowsArbitraryLoads'' PNone) =
           py_bool (dict_get t' ''NSAllowsArbitraryLoads'' PNone)"
  shows "make_row t n cfg = make_row t' n cfg"
  using assms by (cases cfg) (simp_all add: make_row_def Let_def)

lemma domain_rows_cong_top:
  assumes "py_bool (dict_get t ''NSAllowsArbitraryLoads'' PNone) =
           py_bool (dict_get t' ''NSAllowsArbitraryLoads'' PNone)"
  shows "domain_rows t items = domain_rows t' items"
proof (induction items)
  case Nil
  show ?case by simp
next
  case (Cons kv items)
  obtain n cfg where kv: "kv = (n, cfg)" by (cases kv)
  from Cons make_row_cong_top [OF assms, of n cfg] show ?case
    by (simp add: kv split: sum.splits)
qed

lemma summarize_pl_domains:
  assumes "ats_of pe = PDict ae" 
  shows "map_sum id domains (summarize_pl (PDict pe)) =
           (case exc_of ae of
              PDict ee \<Rightarrow> domain_rows (top_of ae) (sort_key fst ee)
            | _ \<Rightarrow> Inl AttributeError)"
  using assms by (simp add: summarize_pl_def split: pval.splits sum.splits)

text \<open>
  Claim C6, as the code has it. Take two manifests whose network-security sections agree on
  every key but \<^verbatim>\<open>NSAllowsArbitraryLoads\<close>. If one does not declare the flag and the other
  sets it to \<^verbatim>\<open>False\<close>, the two summaries have the same rows (and \<^verbatim>\<open>summarize_pl\<close> raises
  on the one exactly when it raises on the other), so every \<^verbatim>\<open>effective_http_permitted\<close> is
  unchanged; the same holds for any two false values of the flag. Every true value of the
  flag, the boolean \<^verbatim>\<open>True\<close> or not, makes \<^verbatim>\<open>effective_http_permitted\<close> true on every row.
\<close>

theorem arbitrary_loads_by_truthiness:
  assumes "ats_of pe = PDict ae" and "ats_of pe' = PDict ae'"
    and "\<forall>k. k \<noteq> ''NSAllowsArbitraryLoads'' \<longrightarrow> map_of ae' k = map_of ae k"
  shows "(map_of ae ''NSAllowsArbitraryLoads'' = None \<and>
          map_of ae' ''NSAllowsArbitraryLoads'' = Some (PBool False) \<longrightarrow>
            map_sum id domains (summarize_pl (PDict pe')) =
            map_sum id domains (summarize_pl (PDict pe))) \<and>
         (\<not> py_bool (dict_get ae ''NSAllowsArbitraryLoads'' PNone) \<and>
          \<not> py_bool (dict_get ae' ''NSAllowsArbitraryLoads'' PNone) \<longrightarrow>
            map_sum id domains (summarize_pl (PDict pe')) =
            map_sum id domains (summarize_pl (PDict pe))) \<and>
         (py_bool (dict_get ae ''NSAllowsArbitraryLoads'' PNone) \<longrightarrow>
            (\<forall>s. summarize_pl (PDict pe) = Inr s \<longrightarrow>
               (\<forall>d \<in> set (domains s). effective_http_permitted d)))"
proof -
  have falsy: "map_sum id domains (summarize_pl (PDict pe')) =
            map_sum id domains (summarize_pl (PDict pe))"
    if "\<not> py_bool (dict_get ae ''NSAllowsArbitraryLoads'' PNone) \<and>
          \<not> py_bool (dict_get ae' ''NSAllowsArbitraryLoads'' PNone)"
  proof -
    from assms(3) have "map_of ae' ''NSExceptionDomains'' = map_of ae ''NSExceptionDomains''"
      by simp
    then have exc: "exc_of ae' = exc_of ae"
      by (simp add: exc_of_def dict_get_def)
    from that have "py_bool (dict_get (top_of ae') ''NSAllowsArbitraryLoads'' PNone) =
             py_bool (dict_get (top_of ae) ''NSAllowsArbitraryLoads'' PNone)"
      by (simp add: top_of_global)
    then have "domain_rows (top_of ae') items = domain_rows (top_of ae) items" for items
      by (rule domain_rows_cong_top)
    with exc show ?thesis
      by (simp add: summarize_pl_domains [OF assms(1)] summarize_pl_domains [OF assms(2)]
            split: pval.splits)
  qed
  have undeclared: "map_sum id domains (summarize_pl (PDict pe')) =
            map_sum id domains (summarize_pl (PDict pe))"
    if "map_of ae ''NSAllowsArbitraryLoads'' = None \<and>
          map_of ae' ''NSAllowsArbitraryLoads'' = Some (PBool False)"
  proof (rule falsy)
    from that show "\<not> py_bool (dict_get ae ''NSAllowsArbitraryLoads'' PNone) \<and>
          \<not> py_bool (dict_get ae' ''NSAllowsArbitraryLoads'' PNone)"
      by (simp add: dict_get_def)
  qed
  have truthy: "effective_http_permitted d"
    if "py_bool (dict_get ae ''NSAllowsArbitraryLoads'' PNone)"
      and s: "summarize_pl (PDict pe) = Inr s" and d: "d \<in> set (domains s)" for s d
  proof -
    from row_origin [OF s d] assms(1) obtain ee ce where
      "make_row (top_of ae) (domain d) (PDict ce) = Inr d"
      by auto
    from make_row_effective [OF this] that(1) show ?thesis
      by (simp add: top_of_global)
  qed
  from falsy undeclared truthy show ?thesis by blast
qed

text \<open>
  The theorem at a section that does not declare the flag and at the same section with the
  flag set to \<^verbatim>\<open>False\<close>.
\<close>

theorem arbitrary_loads_by_truthiness_witness:
  "ats_of [(''NSAppTransportSecurity'', PDict ex_undeclared_section)] = PDict ex_undeclared_section \<and>
   ats_of [(''NSAppTransportSecurity'', PDict ex_false_section)] = PDict ex_false_section \<and>
   map_of ex_undeclared_section ''NSAllowsArbitraryLoads'' = None \<and>
   map_of ex_false_section ''NSAllowsArbitraryLoads'' = Some (PBool False) \<and>
   map_sum id domains
     (summarize_pl (PDict [(''NSAppTransportSecurity'', PDict ex_false_section)])) =
   map_sum id domains
     (summarize_pl (PDict [(''NSAppTransportSecurity'', PDict ex_undeclared_section)]))"
proof -
  have h1: "ats_of [(''NSAppTransportSecurity'', PDict ex_undeclared_section)] =
              PDict ex_undeclared_section"
    by (simp add: ats_of_def dict_get_def py_or_def ex_undeclared_section_def)
  have h2: "ats_of [(''NSAppTransportSecurity'', PDict ex_false_section)] = PDict ex_false_section"
    by (simp add: ats_of_def dict_get_def py_or_def ex_false_section_def)
  have h3: "\<forall>k. k \<noteq> ''NSAllowsArbitraryLoads'' \<longrightarrow>
              map_of ex_false_section k = map_of ex_undeclared_section k"
    by (simp add: ex_false_section_def ex_undeclared_section_def)
  have h4: "map_of ex_undeclared_section ''NSAllowsArbitraryLoads'' = None"
    by (simp add: ex_undeclared_section_def)
  have h5: "map_of ex_false_section ''NSAllowsArbitraryLoads'' = Some (PBool False)"
    by (simp add: ex_false_section_def ex_undeclared_section_def)
  from arbitrary_loads_by_truthiness [OF h1 h2 h3] h4 h5
  have "map_sum id domains
          (summarize_pl (PDict [(''NSAppTransportSecurity'', PDict ex_false_section)])) =
        map_sum id domains
          (summarize_pl (PDict [(''NSAppTransportSecurity'', PDict ex_undeclared_section)]))"
    by blast
  with h1 h2 h4 h5 show ?thesis by (intro conjI)
qed

text \<open>
  Against C6 as stated: the integer 1 is not the boolean \<^verbatim>\<open>True\<close>, and with it at the
  bundle-wide flag the override is active: a domain that sets no flag of its own has
  \<^verbatim>\<open>effective_http_permitted\<close> true.
\<close>

theorem arbitrary_loads_integer_activates:
  "summarize_pl
     (PDict [(''NSAppTransportSecurity'',
        PDict [(''NSAllowsArbitraryLoads'', PInt 1),
               (''NSExceptionDomains'', PDict [(''example.com'', PDict [])])])]) =
   Inr \<lparr> top_level = [(''NSAllowsArbitraryLoads'', PInt 1),
                       (''NSAllowsArbitraryLoadsInWebContent'', PNone),
                       (''NSAllowsArbitraryLoadsForMedia'', PNone)],
          domains = [\<lparr> domain = ''example.com'',
                       NSExceptionAllowsInsecureHTTPLoads = PNone,
                       NSTemporaryExceptionAllowsInsecureHTTPLoads = PNone,
                       NSIncludesSubdomains = PNone,
                       NSRequiresCertificateTransparency = PNone,
                       NSExceptionMinimumTLSVersion = PNone,
                       NSTemporaryExceptionMinimumTLSVersion = PNone,
                       NSExceptionRequiresForwardSecrecy = PNone,
                       NSTemporaryExceptionRequiresForwardSecrecy = PNone,
                       effective_http_permitted = True,
                       MinimumTLSVersionEffective = PNone \<rparr>] \<rparr>
   \<and> PInt 1 \<noteq> PBool True"
  by (simp add: summarize_pl_def ats_of_def exc_of_def top_of_def dict_get_def py_or_def
        ATS_TOP_KEYS_def make_row_def Let_def)

section \<open>The manifests of an archive\<close>

lemma fnmatch_Nil: "fnmatch n [] \<longleftrightarrow> n = []"
  by (cases n) simp_all


lemma fnmatch_lit:
  "p \<noteq> CHR ''*'' \<Longrightarrow> fnmatch n (p # ps) \<longleftrightarrow> (\<exists>r. n = p # r \<and> fnmatch r ps)"
  by (cases n) auto

lemma fnmatch_lits:
  "CHR ''*'' \<notin> set l \<Longrightarrow> fnmatch n (l @ ps) \<longleftrightarrow> (\<exists>r. n = l @ r \<and> fnmatch r ps)"
proof (induction l arbitrary: n)
  case Nil
  show ?case by simp
next
  case (Cons a l)
  then show ?case by (auto simp add: fnmatch_lit)
qed

lemma fnmatch_lits_end:
  "CHR ''*'' \<notin> set l \<Longrightarrow> fnmatch n l \<longleftrightarrow> n = l"
  using fnmatch_lits [of l n "[]"] by (simp add: fnmatch_Nil)




lemma fnmatch_appex_end: "fnmatch n ''.appex/Info.plist'' \<longleftrightarrow> n = ''.appex/Info.plist''"
  by (rule fnmatch_lits_end) simp






lemma remdups_snoc: "remdups (ys @ [x]) = remdups [y \<leftarrow> ys. y \<noteq> x] @ [x]"
  by (induction ys) auto

lemma first_seen_Cons:
  "rev (remdups (rev (x # xs))) = x # rev (remdups (rev [y \<leftarrow> xs. y \<noteq> x]))"
  by (simp add: remdups_snoc rev_filter)

lemma ordered_loop_eq:
  "ordered_loop out seen ordered = ordered @ rev (remdups (rev [p \<leftarrow> out. p \<notin> seen]))"
proof (induction out arbitrary: seen ordered)
  case Nil
  show ?case by simp
next
  case (Cons p out)
  show ?case
  proof (cases "p \<in> seen")
    case True
    with Cons.IH [of seen ordered] show ?thesis by simp
  next
    case False
    have flt: "[q \<leftarrow> out. q \<notin> insert p seen] = [y \<leftarrow> [q \<leftarrow> out. q \<notin> seen]. y \<noteq> p]"
      by (induction out) auto
    have "ordered_loop (p # out) seen ordered = ordered_loop out (insert p seen) (ordered @ [p])"
      using False by simp
    also have "\<dots> = (ordered @ [p]) @ rev (remdups (rev [q \<leftarrow> out. q \<notin> insert p seen]))"
      by (rule Cons.IH)
    also have "\<dots> = ordered @ rev (remdups (rev (p # [q \<leftarrow> out. q \<notin> seen])))"
      by (simp only: flt first_seen_Cons append_assoc append_Cons append_Nil)
    also have "p # [q \<leftarrow> out. q \<notin> seen] = [q \<leftarrow> p # out. q \<notin> seen]"
      using False by simp
    finally show ?thesis .
  qed
qed

lemma first_seen_distinct: "distinct xs \<Longrightarrow> rev (remdups (rev xs)) = xs"
  by (simp add: distinct_remdups_id)

lemma find_all_info_plists_eq:
  "find_all_info_plists z = rev (remdups (rev [n \<leftarrow> namelist z. list_ex (fnmatch n) pats]))"
  by (simp add: find_all_info_plists_def ordered_loop_eq)

lemma remdups_append_filter:
  "remdups (xs @ ys) = remdups [x \<leftarrow> xs. x \<notin> set ys] @ remdups ys"
  by (induction xs) auto

lemma first_seen_append:
  "rev (remdups (rev (xs @ ys))) =
     rev (remdups (rev xs)) @ [p \<leftarrow> rev (remdups (rev ys)). p \<notin> set xs]"
  by (simp add: remdups_append_filter [of "rev ys" "rev xs"] remdups_filter rev_filter)

lemma set_find_all_info_plists:
  "set (find_all_info_plists z) = {n \<in> set (namelist z). list_ex (fnmatch n) pats}"
  by (auto simp add: find_all_info_plists_eq)

text \<open>
  Claim C9. The list returned holds no name twice, holds exactly the names of the archive
  that match a pattern, and is in first-seen order: it is the matching names in the order of
  the archive with every occurrence but the first of a name removed (\<open>remdups\<close> keeps the
  last occurrence, so it is applied to the reversed list); it is the matching names as they
  stand when the archive holds no name twice; and the list of a longer archive starts with
  the list of the shorter one. A name that matches two patterns is tested once, by \<^verbatim>\<open>any\<close>.
\<close>

theorem find_all_info_plists_first_seen:
  "distinct (find_all_info_plists z) \<and>
   set (find_all_info_plists z) = {n \<in> set (namelist z). list_ex (fnmatch n) pats} \<and>
   find_all_info_plists z = rev (remdups (rev [n \<leftarrow> namelist z. list_ex (fnmatch n) pats])) \<and>
   (distinct (namelist z) \<longrightarrow>
      find_all_info_plists z = [n \<leftarrow> namelist z. list_ex (fnmatch n) pats]) \<and>
   find_all_info_plists (z @ z') =
     find_all_info_plists z @
     [p \<leftarrow> find_all_info_plists z'. p \<notin> set (find_all_info_plists z)]"
proof (intro conjI impI)
  show "distinct (find_all_info_plists z)"
    by (simp add: find_all_info_plists_eq)
  show "set (find_all_info_plists z) = {n \<in> set (namelist z). list_ex (fnmatch n) pats}"
    by (rule set_find_all_info_plists)
  show "find_all_info_plists z = rev (remdups (rev [n \<leftarrow> namelist z. list_ex (fnmatch n) pats]))"
    by (rule find_all_info_plists_eq)
  show "find_all_info_plists z = [n \<leftarrow> namelist z. list_ex (fnmatch n) pats]"
    if "distinct (namelist z)"
  proof -
    from that have "distinct [n \<leftarrow> namelist z. list_ex (fnmatch n) pats]" by simp
    then show ?thesis
      unfolding find_all_info_plists_eq by (rule first_seen_distinct)
  qed
  have "find_all_info_plists (z @ z') =
          rev (remdups (rev ([n \<leftarrow> namelist z. list_ex (fnmatch n) pats] @
                             [n \<leftarrow> namelist z'. list_ex (fnmatch n) pats])))"
    by (simp add: find_all_info_plists_eq namelist_def)
  also have "\<dots> = find_all_info_plists z @
          [p \<leftarrow> find_all_info_plists z'. p \<notin> set [n \<leftarrow> namelist z. list_ex (fnmatch n) pats]]"
    by (simp only: first_seen_append find_all_info_plists_eq)
  also have "set [n \<leftarrow> namelist z. list_ex (fnmatch n) pats] = set (find_all_info_plists z)"
    by (simp add: set_find_all_info_plists)
  finally show "find_all_info_plists (z @ z') =
     find_all_info_plists z @
     [p \<leftarrow> find_all_info_plists z'. p \<notin> set (find_all_info_plists z)]" .
qed

text \<open>
  The theorem at the example archive: \<^verbatim>\<open>Payload/x/B.app/Info.plist\<close> occurs twice in it and
  matches two patterns, and is listed once, before \<^verbatim>\<open>Payload/A.app/Info.plist\<close> as in the
  archive. The first four members have distinct names.
\<close>

theorem find_all_info_plists_first_seen_witness:
  "find_all_info_plists ex_archive =
     [''Payload/x/B.app/Info.plist'', ''Payload/A.app/Info.plist'',
      ''Payload/A.app/PlugIns/E.appex/Info.plist''] \<and>
   fnmatch ''Payload/x/B.app/Info.plist'' ''Payload/*.app/Info.plist'' \<and>
   fnmatch ''Payload/x/B.app/Info.plist'' ''Payload/**/*.app/Info.plist'' \<and>
   distinct (namelist (take 4 ex_archive)) \<and>
   find_all_info_plists (take 4 ex_archive) =
     [n \<leftarrow> namelist (take 4 ex_archive). list_ex (fnmatch n) pats]"
proof -
  have a: "rev (remdups (rev [n \<leftarrow> namelist ex_archive. list_ex (fnmatch n) pats])) =
     [''Payload/x/B.app/Info.plist'', ''Payload/A.app/Info.plist'',
      ''Payload/A.app/PlugIns/E.appex/Info.plist'']"
    by code_simp
  have b: "fnmatch ''Payload/x/B.app/Info.plist'' ''Payload/*.app/Info.plist''"
    by code_simp
  have c: "fnmatch ''Payload/x/B.app/Info.plist'' ''Payload/**/*.app/Info.plist''"
    by code_simp
  have d: "distinct (namelist (take 4 ex_archive))"
    by (simp add: ex_archive_def namelist_def)
  have "find_all_info_plists ex_archive =
     [''Payload/x/B.app/Info.plist'', ''Payload/A.app/Info.plist'',
      ''Payload/A.app/PlugIns/E.appex/Info.plist'']"
    using find_all_info_plists_first_seen [of ex_archive, THEN conjunct2, THEN conjunct2, THEN conjunct1]
    by (simp only: a)
  moreover have "find_all_info_plists (take 4 ex_archive) =
     [n \<leftarrow> namelist (take 4 ex_archive). list_ex (fnmatch n) pats]"
    by (rule find_all_info_plists_first_seen [of "take 4 ex_archive", THEN conjunct2, THEN conjunct2, THEN conjunct2,
          THEN conjunct1, rule_format, OF d])
  ultimately show ?thesis by (intro conjI b c d)
qed





section \<open>The loop over the manifests\<close>

lemma parse_loop_append:
  "parse_loop z (ps1 @ ps2) acc =
     (case parse_loop z ps1 acc of Inl x \<Rightarrow> Inl x | Inr acc' \<Rightarrow> parse_loop z ps2 acc')"
proof (induction ps1 arbitrary: acc)
  case Nil
  show ?case by (cases acc) simp
next
  case (Cons p ps1)
  obtain errs rs where acc: "acc = (errs, rs)" by (cases acc)
  show ?case
    by (simp add: acc Cons.IH split: sum.splits)
qed

lemma parse_loop_errs_irrelevant:
  "map_sum id snd (parse_loop z ps (errs, rs)) = map_sum id snd (parse_loop z ps (errs', rs))"
proof (induction ps arbitrary: errs errs' rs)
  case Nil
  show ?case by simp
next
  case (Cons p ps)
  show ?case
  proof (cases "parse_plist z p")
    case (Inl e)
    with Cons.IH [of "errs @ [CouldNotParse p e]" rs "errs' @ [CouldNotParse p e]"]
    show ?thesis by simp
  next
    case (Inr pl)
    with Cons.IH [of errs _ errs'] show ?thesis
      by (simp split: sum.splits)
  qed
qed

lemma parse_loop_skip:
  assumes "parse_plist z p = Inl e"
  shows "map_sum id snd (parse_loop z (ps1 @ p # ps2) acc) =
         map_sum id snd (parse_loop z (ps1 @ ps2) acc)"
proof (cases "parse_loop z ps1 acc")
  case (Inl x)
  then show ?thesis by (simp add: parse_loop_append)
next
  case (Inr acc')
  obtain errs rs where acc': "acc' = (errs, rs)" by (cases acc')
  from Inr assms show ?thesis
    by (simp add: parse_loop_append acc'
          parse_loop_errs_irrelevant [of z ps2 "errs @ [CouldNotParse p e]" rs errs])
qed

lemma parse_loop_Inl:
  "parse_loop z ps acc = Inl x \<Longrightarrow>
     \<exists>p \<in> set ps. \<exists>pl. parse_plist z p = Inr pl \<and> summarize_pl pl = Inl x"
proof (induction ps arbitrary: acc)
  case Nil
  then show ?case by (cases acc) simp
next
  case (Cons p ps)
  obtain errs rs where acc: "acc = (errs, rs)" by (cases acc)
  show ?case
  proof (cases "parse_plist z p")
    case (Inl e)
    with Cons.prems acc have "parse_loop z ps (errs @ [CouldNotParse p e], rs) = Inl x" by simp
    from Cons.IH [OF this] show ?thesis by auto
  next
    case (Inr pl)
    show ?thesis
    proof (cases "summarize_pl pl")
      case (Inl y)
      with Inr Cons.prems acc have "y = x" by simp
      with Inl Inr show ?thesis by auto
    next
      case r: (Inr s)
      with Inr Cons.prems acc
      have "parse_loop z ps
              (errs, rs @ [\<lparr> top_level = top_level s, domains = domains s, info_plist = p \<rparr>]) = Inl x"
        by simp
      from Cons.IH [OF this] show ?thesis by auto
    qed
  qed
qed

lemma parse_loop_Inr:
  assumes "parse_loop z ps (errs, rs) = Inr (errs', rs')"
  shows "errs' = errs @ concat (map (\<lambda>p. case parse_plist z p of
                                         Inl e \<Rightarrow> [CouldNotParse p e] | Inr pl \<Rightarrow> []) ps) \<and>
         (\<exists>new. rs' = rs @ new \<and>
            list_all2 (\<lambda>p r. info_plist r = p \<and>
                 (\<exists>pl s. parse_plist z p = Inr pl \<and> summarize_pl pl = Inr s \<and>
                    top_level r = top_level s \<and> domains r = domains s))
              [p \<leftarrow> ps. \<not> isl (parse_plist z p)] new)"
  using assms
proof (induction ps arbitrary: errs rs)
  case Nil
  then show ?case by simp
next
  case (Cons p ps)
  show ?case
  proof (cases "parse_plist z p")
    case (Inl e)
    with Cons.prems have "parse_loop z ps (errs @ [CouldNotParse p e], rs) = Inr (errs', rs')"
      by simp
    from Cons.IH [OF this] Inl show ?thesis by simp
  next
    case (Inr pl)
    with Cons.prems obtain s where s: "summarize_pl pl = Inr s"
      and loop: "parse_loop z ps
              (errs, rs @ [\<lparr> top_level = top_level s, domains = domains s, info_plist = p \<rparr>]) =
            Inr (errs', rs')"
      by (auto split: sum.splits)
    from Cons.IH [OF loop] obtain new where
      errs': "errs' = errs @ concat (map (\<lambda>p. case parse_plist z p of
                                         Inl e \<Rightarrow> [CouldNotParse p e] | Inr pl \<Rightarrow> []) ps)"
      and rs': "rs' = (rs @ [\<lparr> top_level = top_level s, domains = domains s, info_plist = p \<rparr>]) @ new"
      and rel: "list_all2 (\<lambda>p r. info_plist r = p \<and>
                 (\<exists>pl s. parse_plist z p = Inr pl \<and> summarize_pl pl = Inr s \<and>
                    top_level r = top_level s \<and> domains r = domains s))
              [p \<leftarrow> ps. \<not> isl (parse_plist z p)] new"
      by blast
    have "rs' = rs @ (\<lparr> top_level = top_level s, domains = domains s, info_plist = p \<rparr> # new) \<and>
          list_all2 (\<lambda>p r. info_plist r = p \<and>
                 (\<exists>pl s. parse_plist z p = Inr pl \<and> summarize_pl pl = Inr s \<and>
                    top_level r = top_level s \<and> domains r = domains s))
              [p \<leftarrow> p # ps. \<not> isl (parse_plist z p)]
              (\<lparr> top_level = top_level s, domains = domains s, info_plist = p \<rparr> # new)"
      using rs' rel Inr s by simp
    with errs' Inr show ?thesis by (simp only: list.map concat.simps sum.case append_Nil) blast
  qed
qed

section \<open>The exit status\<close>

lemma insecure_of_iff:
  "insecure_of rs \<longleftrightarrow> (\<exists>r \<in> set rs. \<exists>d \<in> set (domains r). effective_http_permitted d)"
  by (simp add: insecure_of_def list_ex_iff)




lemma run_loop_raises:
  assumes "ZipFile fs ipa = Inr z" and "find_all_info_plists z \<noteq> []"
    and "parse_loop z (find_all_info_plists z) ([], []) = Inl e"
  shows "run fs ipa fd jm cm = Inl e"
  using assms by (simp add: run_def)

lemma run_opened:
  assumes "ZipFile fs ipa = Inr z" and "find_all_info_plists z \<noteq> []"
    and "parse_loop z (find_all_info_plists z) ([], []) = Inr (errs, rs)"
  shows "run fs ipa fd jm cm =
           (if jm \<and> \<not> list_all json_ok_result (filter_results fd rs) then Inl TypeError
            else Inr \<lparr> stderr = errs, results = filter_results fd rs,
                       exit_code = (if insecure_of (filter_results fd rs) then 2 else 0) \<rparr>)"
  using assms by (simp add: run_def Let_def)

text \<open>The run on the example archives.\<close>

lemma ZipFile_ex_fs: "ZipFile ex_fs ''app.ipa'' = Inr ex_archive"
  by (simp add: ZipFile_def ex_fs_def)

lemma ZipFile_ex_broken_fs: "ZipFile ex_broken_fs ''app.ipa'' = Inr ex_broken_archive"
  by (simp add: ZipFile_def ex_broken_fs_def)

lemma find_all_ex_archive:
  "find_all_info_plists ex_archive =
     [''Payload/x/B.app/Info.plist'', ''Payload/A.app/Info.plist'',
      ''Payload/A.app/PlugIns/E.appex/Info.plist'']"
  by code_simp

lemma find_all_ex_broken_archive:
  "find_all_info_plists ex_broken_archive = [''Payload/A.app/Info.plist'']"
  by code_simp

lemma summarize_ex_override: "summarize_pl ex_override_manifest = Inr ex_override_summary"
  by (simp add: ex_override_manifest_def ex_override_summary_def ex_override_row_def
        summarize_pl_def ats_of_def exc_of_def top_of_def dict_get_def py_or_def
        ATS_TOP_KEYS_def make_row_def Let_def)

lemma summarize_ex_tls: "summarize_pl ex_tls_manifest = Inr ex_tls_summary"
  by (simp add: ex_tls_manifest_def ex_tls_summary_def ex_tls_row_def
        summarize_pl_def ats_of_def exc_of_def top_of_def dict_get_def py_or_def
        ATS_TOP_KEYS_def make_row_def Let_def)

lemma parse_plist_ex_archive:
  "parse_plist ex_archive ''Payload/x/B.app/Info.plist'' = Inr ex_tls_manifest"
  "parse_plist ex_archive ''Payload/A.app/Info.plist'' = Inr ex_override_manifest"
  "parse_plist ex_archive ''Payload/A.app/PlugIns/E.appex/Info.plist'' = Inl ''Invalid file''"
  by (simp_all add: parse_plist_def ex_archive_def)

lemma parse_loop_ex_archive:
  "parse_loop ex_archive (find_all_info_plists ex_archive) ([], []) =
     Inr ([CouldNotParse ''Payload/A.app/PlugIns/E.appex/Info.plist'' ''Invalid file''],
          ex_results)"
  by (simp add: find_all_ex_archive parse_plist_ex_archive summarize_ex_override
        summarize_ex_tls ex_results_def)

lemma insecure_ex_results: "insecure_of ex_results"
  by (simp add: insecure_of_def ex_results_def ex_override_summary_def ex_override_row_def)

lemma run_ex_fs: "run ex_fs ''app.ipa'' None False ''always'' = Inr ex_out"
proof -
  have ne: "find_all_info_plists ex_archive \<noteq> []"
    by (simp add: find_all_ex_archive)
  from run_opened [OF ZipFile_ex_fs ne parse_loop_ex_archive, of None False "''always''"]
  show ?thesis
    by (simp add: filter_results_def insecure_ex_results ex_out_def)
qed

text \<open>
  Claim C2. The claim is what the module's own documentation promises (lines 12 to 15:
  status 3 for an error of usage or of the file), and \<^verbatim>\<open>run\<close> gives status 3 for a missing
  archive and for a file that is not an archive. But line 116 catches only \<^verbatim>\<open>BadZipFile\<close>
  and \<^verbatim>\<open>FileNotFoundError\<close>: on an archive that the process may not read, or on a
  directory, \<^verbatim>\<open>zipfile.ZipFile\<close> raises another \<^verbatim>\<open>OSError\<close>, nothing catches it, and the
  process ends with a traceback and status 1, which is none of the three.
\<close>

theorem run_unreadable_archive:
  "run [(''app.ipa'', Unreadable)] ''app.ipa'' None False ''always'' = Inl PermissionError \<and>
   run [(''app.ipa'', Directory)] ''app.ipa'' None False ''always'' = Inl IsADirectoryError \<and>
   run [] ''app.ipa'' None False ''always'' =
     Inr \<lparr> stderr = [ErrorOpeningIPA FileNotFoundError], results = [], exit_code = 3 \<rparr> \<and>
   run [(''app.ipa'', NotAZip)] ''app.ipa'' None False ''always'' =
     Inr \<lparr> stderr = [ErrorOpeningIPA BadZipFile], results = [], exit_code = 3 \<rparr>"
  by (simp add: run_def ZipFile_def)

section \<open>Manifests that fail to decode\<close>

lemma parse_loop_all_fail:
  assumes "\<forall>p \<in> set ps. isl (parse_plist z p)"
  shows "parse_loop z ps (errs, rs) =
           Inr (errs @ map (\<lambda>p. CouldNotParse p (projl (parse_plist z p))) ps, rs)"
  using assms
proof (induction ps arbitrary: errs)
  case Nil
  show ?case by simp
next
  case (Cons p ps)
  from Cons.prems obtain e where e: "parse_plist z p = Inl e"
    by (cases "parse_plist z p") auto
  from Cons.prems have "\<forall>p \<in> set ps. isl (parse_plist z p)" by simp
  from Cons.IH [OF this, of "errs @ [CouldNotParse p e]"] e show ?case by simp
qed

lemma filter_results_domains:
  "list_all2 (\<lambda>r r'. info_plist r' = info_plist r \<and> top_level r' = top_level r \<and>
        domains r' = (case fd of
                        None \<Rightarrow> domains r
                      | Some f \<Rightarrow> if f \<noteq> [] then filter (\<lambda>d. domain d = f) (domains r)
                                  else domains r))
     rs (filter_results fd rs)"
  by (cases fd) (simp_all add: filter_results_def list_all2_map2 list.rel_refl)

text \<open>
  Claim C4. Let the archive open and hold at least one manifest. When \<^verbatim>\<open>run\<close> returns, its
  diagnostics are one warning for each member that fails to decode, in order; its results
  are one for each member that decodes, in order, each the summary of that member (with the
  filter applied); and the status is computed from these results alone. When every member
  fails to decode, \<^verbatim>\<open>run\<close> returns status 0 with no result. And in the loop a member that
  fails to decode changes nothing but the diagnostics: with it or without it, the loop
  yields the same results, or the same exception.
\<close>

theorem decode_failure_skipped:
  assumes "ZipFile fs ipa = Inr z" and "find_all_info_plists z \<noteq> []"
  shows "(run fs ipa fd jm cm = Inr out \<longrightarrow>
            stderr out =
              concat (map (\<lambda>p. case parse_plist z p of
                                  Inl e \<Rightarrow> [CouldNotParse p e] | Inr pl \<Rightarrow> [])
                        (find_all_info_plists z)) \<and>
            list_all2
              (\<lambda>p r. info_plist r = p \<and>
                 (\<exists>pl s. parse_plist z p = Inr pl \<and> summarize_pl pl = Inr s \<and>
                    top_level r = top_level s \<and>
                    domains r =
                      (case fd of
                         None \<Rightarrow> domains s
                       | Some f \<Rightarrow> if f \<noteq> [] then filter (\<lambda>d. domain d = f) (domains s)
                                   else domains s)))
              [p \<leftarrow> find_all_info_plists z. \<not> isl (parse_plist z p)] (results out) \<and>
            exit_code out = (if insecure_of (results out) then 2 else 0)) \<and>
         ((\<forall>p \<in> set (find_all_info_plists z). isl (parse_plist z p)) \<longrightarrow>
            run fs ipa fd jm cm =
              Inr \<lparr> stderr = map (\<lambda>p. CouldNotParse p (projl (parse_plist z p)))
                                (find_all_info_plists z),
                     results = [], exit_code = 0 \<rparr>) \<and>
         (\<forall>ps1 p ps2 e. parse_plist z p = Inl e \<longrightarrow>
            map_sum id snd (parse_loop z (ps1 @ p # ps2) ([], [])) =
            map_sum id snd (parse_loop z (ps1 @ ps2) ([], [])))"
proof -
  have first: "stderr out =
              concat (map (\<lambda>p. case parse_plist z p of
                                  Inl e \<Rightarrow> [CouldNotParse p e] | Inr pl \<Rightarrow> [])
                        (find_all_info_plists z)) \<and>
            list_all2
              (\<lambda>p r. info_plist r = p \<and>
                 (\<exists>pl s. parse_plist z p = Inr pl \<and> summarize_pl pl = Inr s \<and>
                    top_level r = top_level s \<and>
                    domains r =
                      (case fd of
                         None \<Rightarrow> domains s
                       | Some f \<Rightarrow> if f \<noteq> [] then filter (\<lambda>d. domain d = f) (domains s)
                                   else domains s)))
              [p \<leftarrow> find_all_info_plists z. \<not> isl (parse_plist z p)] (results out) \<and>
            exit_code out = (if insecure_of (results out) then 2 else 0)"
    if run: "run fs ipa fd jm cm = Inr out"
  proof (cases "parse_loop z (find_all_info_plists z) ([], [])")
    case (Inl x)
    from run_loop_raises [OF assms Inl, of fd jm cm] run show ?thesis by simp
  next
    case (Inr acc)
    obtain errs rs where acc: "acc = (errs, rs)" by (cases acc)
    note loop = Inr [unfolded acc]
    from run_opened [OF assms loop, of fd jm cm] run
    have out: "out = \<lparr> stderr = errs, results = filter_results fd rs,
                   exit_code = (if insecure_of (filter_results fd rs) then 2 else 0) \<rparr>"
      by (simp split: if_splits)
    from parse_loop_Inr [OF loop] have
      errs: "errs = concat (map (\<lambda>p. case parse_plist z p of
                                  Inl e \<Rightarrow> [CouldNotParse p e] | Inr pl \<Rightarrow> [])
                        (find_all_info_plists z))"
      and rel: "list_all2 (\<lambda>p r. info_plist r = p \<and>
                 (\<exists>pl s. parse_plist z p = Inr pl \<and> summarize_pl pl = Inr s \<and>
                    top_level r = top_level s \<and> domains r = domains s))
              [p \<leftarrow> find_all_info_plists z. \<not> isl (parse_plist z p)] rs"
      by simp_all
    have "list_all2
              (\<lambda>p r. info_plist r = p \<and>
                 (\<exists>pl s. parse_plist z p = Inr pl \<and> summarize_pl pl = Inr s \<and>
                    top_level r = top_level s \<and>
                    domains r =
                      (case fd of
                         None \<Rightarrow> domains s
                       | Some f \<Rightarrow> if f \<noteq> [] then filter (\<lambda>d. domain d = f) (domains s)
                                   else domains s)))
              [p \<leftarrow> find_all_info_plists z. \<not> isl (parse_plist z p)] (filter_results fd rs)"
    proof (rule list_all2_trans [OF _ rel filter_results_domains [of fd rs]])
      fix p r r'
      assume a: "info_plist r = p \<and>
                 (\<exists>pl s. parse_plist z p = Inr pl \<and> summarize_pl pl = Inr s \<and>
                    top_level r = top_level s \<and> domains r = domains s)"
        and b: "info_plist r' = info_plist r \<and> top_level r' = top_level r \<and>
                 domains r' = (case fd of
                        None \<Rightarrow> domains r
                      | Some f \<Rightarrow> if f \<noteq> [] then filter (\<lambda>d. domain d = f) (domains r)
                                  else domains r)"
      from a obtain pl s where s: "parse_plist z p = Inr pl" "summarize_pl pl = Inr s"
        "top_level r = top_level s" "domains r = domains s" and p: "info_plist r = p"
        by blast
      from b have "info_plist r' = p" using p by simp
      moreover from b s(3) have "top_level r' = top_level s" by simp
      moreover from b have "domains r' = (case fd of
                        None \<Rightarrow> domains s
                      | Some f \<Rightarrow> if f \<noteq> [] then filter (\<lambda>d. domain d = f) (domains s)
                                  else domains s)"
        by (simp only: s(4))
      ultimately show "info_plist r' = p \<and>
                 (\<exists>pl s. parse_plist z p = Inr pl \<and> summarize_pl pl = Inr s \<and>
                    top_level r' = top_level s \<and>
                    domains r' =
                      (case fd of
                         None \<Rightarrow> domains s
                       | Some f \<Rightarrow> if f \<noteq> [] then filter (\<lambda>d. domain d = f) (domains s)
                                   else domains s))"
        using s(1,2) by blast
    qed
    with errs show ?thesis by (simp add: out)
  qed
  have second: "run fs ipa fd jm cm =
              Inr \<lparr> stderr = map (\<lambda>p. CouldNotParse p (projl (parse_plist z p)))
                                (find_all_info_plists z),
                     results = [], exit_code = 0 \<rparr>"
    if all: "\<forall>p \<in> set (find_all_info_plists z). isl (parse_plist z p)"
    using run_opened [OF assms parse_loop_all_fail [OF all, of "[]" "[]"], of fd jm cm]
    by (cases fd) (simp_all add: filter_results_def insecure_of_def)
  have third: "map_sum id snd (parse_loop z (ps1 @ p # ps2) ([], [])) =
            map_sum id snd (parse_loop z (ps1 @ ps2) ([], []))"
    if "parse_plist z p = Inl e" for ps1 p ps2 e
    using that by (rule parse_loop_skip)
  from first second third show ?thesis by blast
qed

text \<open>
  The theorem at the example archive, whose third manifest fails to decode, and at the
  archive whose only manifest does.
\<close>

theorem decode_failure_skipped_witness:
  "ZipFile ex_fs ''app.ipa'' = Inr ex_archive \<and>
   find_all_info_plists ex_archive \<noteq> [] \<and>
   run ex_fs ''app.ipa'' None False ''always'' = Inr ex_out \<and>
   parse_plist ex_archive ''Payload/A.app/PlugIns/E.appex/Info.plist'' = Inl ''Invalid file'' \<and>
   stderr ex_out = [CouldNotParse ''Payload/A.app/PlugIns/E.appex/Info.plist'' ''Invalid file''] \<and>
   map info_plist (results ex_out) = [''Payload/x/B.app/Info.plist'', ''Payload/A.app/Info.plist''] \<and>
   exit_code ex_out = (if insecure_of (results ex_out) then 2 else 0) \<and>
   ZipFile ex_broken_fs ''app.ipa'' = Inr ex_broken_archive \<and>
   find_all_info_plists ex_broken_archive \<noteq> [] \<and>
   isl (parse_plist ex_broken_archive ''Payload/A.app/Info.plist'') \<and>
   run ex_broken_fs ''app.ipa'' None False ''always'' =
     Inr \<lparr> stderr = [CouldNotParse ''Payload/A.app/Info.plist'' ''Invalid file''],
            results = [], exit_code = 0 \<rparr>"
proof -
  have ne: "find_all_info_plists ex_archive \<noteq> []"
    by (simp add: find_all_ex_archive)
  note inst = decode_failure_skipped [OF ZipFile_ex_fs ne, of None False "''always''" ex_out]
  from inst run_ex_fs have a: "stderr ex_out =
              concat (map (\<lambda>p. case parse_plist ex_archive p of
                                  Inl e \<Rightarrow> [CouldNotParse p e] | Inr pl \<Rightarrow> [])
                        (find_all_info_plists ex_archive))"
    and b: "list_all2
              (\<lambda>p r. info_plist r = p \<and>
                 (\<exists>pl s. parse_plist ex_archive p = Inr pl \<and> summarize_pl pl = Inr s \<and>
                    top_level r = top_level s \<and>
                    domains r =
                      (case None of
                         None \<Rightarrow> domains s
                       | Some f \<Rightarrow> if f \<noteq> [] then filter (\<lambda>d. domain d = f) (domains s)
                                   else domains s)))
              [p \<leftarrow> find_all_info_plists ex_archive. \<not> isl (parse_plist ex_archive p)]
              (results ex_out)"
    and c: "exit_code ex_out = (if insecure_of (results ex_out) then 2 else 0)"
    by blast+
  from a have a': "stderr ex_out =
      [CouldNotParse ''Payload/A.app/PlugIns/E.appex/Info.plist'' ''Invalid file'']"
    by (simp add: find_all_ex_archive parse_plist_ex_archive)
  from b have "list_all2 (\<lambda>p r. info_plist r = p)
              [p \<leftarrow> find_all_info_plists ex_archive. \<not> isl (parse_plist ex_archive p)]
              (results ex_out)"
    by (rule list_all2_mono) simp
  then have "map info_plist (results ex_out) =
              [p \<leftarrow> find_all_info_plists ex_archive. \<not> isl (parse_plist ex_archive p)]"
    by (simp add: list_all2_conv_all_nth list_eq_iff_nth_eq)
  then have b': "map info_plist (results ex_out) =
      [''Payload/x/B.app/Info.plist'', ''Payload/A.app/Info.plist'']"
    by (simp add: find_all_ex_archive parse_plist_ex_archive)
  have ne': "find_all_info_plists ex_broken_archive \<noteq> []"
    by (simp add: find_all_ex_broken_archive)
  have fail: "parse_plist ex_broken_archive ''Payload/A.app/Info.plist'' = Inl ''Invalid file''"
    by (simp add: parse_plist_def ex_broken_archive_def)
  have isl: "isl (parse_plist ex_broken_archive ''Payload/A.app/Info.plist'')"
    by (simp add: fail)
  then have all: "\<forall>p \<in> set (find_all_info_plists ex_broken_archive).
               isl (parse_plist ex_broken_archive p)"
    by (simp add: find_all_ex_broken_archive)
  from decode_failure_skipped [OF ZipFile_ex_broken_fs ne', of None False "''always''"] all
  have "run ex_broken_fs ''app.ipa'' None False ''always'' =
     Inr \<lparr> stderr = map (\<lambda>p. CouldNotParse p (projl (parse_plist ex_broken_archive p)))
                       (find_all_info_plists ex_broken_archive),
            results = [], exit_code = 0 \<rparr>"
    by blast
  then have d: "run ex_broken_fs ''app.ipa'' None False ''always'' =
     Inr \<lparr> stderr = [CouldNotParse ''Payload/A.app/Info.plist'' ''Invalid file''],
            results = [], exit_code = 0 \<rparr>"
    by (simp add: find_all_ex_broken_archive fail)
  show ?thesis
    by (intro conjI ZipFile_ex_fs ne run_ex_fs parse_plist_ex_archive(3) a' b' c
          ZipFile_ex_broken_fs ne' isl d)
qed

section \<open>The domain filter\<close>







section \<open>A manifest without a network-security section\<close>

lemma summarize_pl_no_section:
  assumes "map_of pe ''NSAppTransportSecurity'' = None"
  shows "summarize_pl (PDict pe) =
          Inr \<lparr> top_level = [(''NSAllowsArbitraryLoads'', PNone),
                              (''NSAllowsArbitraryLoadsInWebContent'', PNone),
                              (''NSAllowsArbitraryLoadsForMedia'', PNone)],
                 domains = [] \<rparr>"
  using assms
  by (simp add: summarize_pl_def ats_of_def exc_of_def top_of_def dict_get_def py_or_def
        ATS_TOP_KEYS_def)

lemma parse_loop_no_section:
  assumes "\<forall>p \<in> set ps. \<forall>pl. parse_plist z p = Inr pl \<longrightarrow>
             (\<exists>pe. pl = PDict pe \<and> map_of pe ''NSAppTransportSecurity'' = None)"
  shows "\<exists>errs' new. parse_loop z ps (errs, rs) = Inr (errs', rs @ new) \<and>
           (\<forall>r \<in> set new.
              top_level r = [(''NSAllowsArbitraryLoads'', PNone),
                             (''NSAllowsArbitraryLoadsInWebContent'', PNone),
                             (''NSAllowsArbitraryLoadsForMedia'', PNone)] \<and>
              domains r = [])"
  using assms
proof (induction ps arbitrary: errs rs)
  case Nil
  show ?case by simp
next
  case (Cons p ps)
  from Cons.prems have rest: "\<forall>p \<in> set ps. \<forall>pl. parse_plist z p = Inr pl \<longrightarrow>
             (\<exists>pe. pl = PDict pe \<and> map_of pe ''NSAppTransportSecurity'' = None)"
    by simp
  show ?case
  proof (cases "parse_plist z p")
    case (Inl e)
    from Cons.IH [OF rest, of "errs @ [CouldNotParse p e]" rs] Inl show ?thesis by simp
  next
    case (Inr pl)
    with Cons.prems obtain pe where pl: "pl = PDict pe"
      and none: "map_of pe ''NSAppTransportSecurity'' = None"
      by auto
    let ?r = "\<lparr> top_level = [(''NSAllowsArbitraryLoads'', PNone),
                              (''NSAllowsArbitraryLoadsInWebContent'', PNone),
                              (''NSAllowsArbitraryLoadsForMedia'', PNone)],
                 domains = [], info_plist = p \<rparr>"
    from Cons.IH [OF rest, of errs "rs @ [?r]"] obtain errs' new where
      loop: "parse_loop z ps (errs, rs @ [?r]) = Inr (errs', (rs @ [?r]) @ new)"
      and new: "\<forall>r \<in> set new.
              top_level r = [(''NSAllowsArbitraryLoads'', PNone),
                             (''NSAllowsArbitraryLoadsInWebContent'', PNone),
                             (''NSAllowsArbitraryLoadsForMedia'', PNone)] \<and>
              domains r = []"
      by blast
    have "parse_loop z (p # ps) (errs, rs) = Inr (errs', rs @ (?r # new))"
      using Inr pl summarize_pl_no_section [OF none] loop by simp
    moreover have "\<forall>r \<in> set (?r # new).
              top_level r = [(''NSAllowsArbitraryLoads'', PNone),
                             (''NSAllowsArbitraryLoadsInWebContent'', PNone),
                             (''NSAllowsArbitraryLoadsForMedia'', PNone)] \<and>
              domains r = []"
      using new by simp
    ultimately show ?thesis by blast
  qed
qed

lemma run_no_section:
  assumes "ZipFile fs ipa = Inr z" and "find_all_info_plists z \<noteq> []"
    and "\<forall>p \<in> set (find_all_info_plists z). \<forall>pl. parse_plist z p = Inr pl \<longrightarrow>
             (\<exists>pe. pl = PDict pe \<and> map_of pe ''NSAppTransportSecurity'' = None)"
  shows "\<exists>out. run fs ipa fd jm cm = Inr out \<and> exit_code out = 0 \<and>
           (\<forall>r \<in> set (results out).
              top_level r = [(''NSAllowsArbitraryLoads'', PNone),
                             (''NSAllowsArbitraryLoadsInWebContent'', PNone),
                             (''NSAllowsArbitraryLoadsForMedia'', PNone)] \<and>
              domains r = [])"
proof -
  from parse_loop_no_section [OF assms(3), of "[]" "[]"] obtain errs new where
    loop: "parse_loop z (find_all_info_plists z) ([], []) = Inr (errs, new)"
    and new: "\<forall>r \<in> set new.
              top_level r = [(''NSAllowsArbitraryLoads'', PNone),
                             (''NSAllowsArbitraryLoadsInWebContent'', PNone),
                             (''NSAllowsArbitraryLoadsForMedia'', PNone)] \<and>
              domains r = []"
    by auto
  have flt: "\<forall>r \<in> set (filter_results fd new).
              top_level r = [(''NSAllowsArbitraryLoads'', PNone),
                             (''NSAllowsArbitraryLoadsInWebContent'', PNone),
                             (''NSAllowsArbitraryLoadsForMedia'', PNone)] \<and>
              domains r = []"
    using new by (cases fd) (auto simp add: filter_results_def)
  then have json: "list_all json_ok_result (filter_results fd new)"
    by (simp add: list_all_iff json_ok_result_def)
  from flt have secure: "\<not> insecure_of (filter_results fd new)"
    by (simp add: insecure_of_iff)
  from run_opened [OF assms(1,2) loop, of fd jm cm] json secure
  have "run fs ipa fd jm cm =
          Inr \<lparr> stderr = errs, results = filter_results fd new, exit_code = 0 \<rparr>"
    by simp
  with flt show ?thesis by simp
qed

text \<open>
  Claim C10. When the manifest has no \<^verbatim>\<open>NSAppTransportSecurity\<close> key, the summary has the
  three bundle-wide flags at \<^verbatim>\<open>None\<close> and no domain. The verdict over its result alone is
  secure, and its result changes the verdict of no run: the verdict over any results with it
  is the verdict over the results without it. And a run on an archive all of whose decoded
  manifests are such returns status 0, in either mode and with any filter.
\<close>

theorem no_security_section:
  assumes "map_of pe ''NSAppTransportSecurity'' = None"
  shows "(\<exists>s. summarize_pl (PDict pe) = Inr s \<and>
           top_level s = [(''NSAllowsArbitraryLoads'', PNone),
                          (''NSAllowsArbitraryLoadsInWebContent'', PNone),
                          (''NSAllowsArbitraryLoadsForMedia'', PNone)] \<and>
           domains s = [] \<and>
           (\<forall>p. \<not> insecure_of
                   [\<lparr> top_level = top_level s, domains = domains s, info_plist = p \<rparr>]) \<and>
           (\<forall>p rs rs'.
              insecure_of
                (rs @ \<lparr> top_level = top_level s, domains = domains s, info_plist = p \<rparr> # rs') =
              insecure_of (rs @ rs'))) \<and>
         (ZipFile fs ipa = Inr z \<and> find_all_info_plists z \<noteq> [] \<and>
          (\<forall>p \<in> set (find_all_info_plists z). \<forall>pl. parse_plist z p = Inr pl \<longrightarrow>
             (\<exists>pe'. pl = PDict pe' \<and> map_of pe' ''NSAppTransportSecurity'' = None)) \<longrightarrow>
          (\<exists>out. run fs ipa fd jm cm = Inr out \<and> exit_code out = 0 \<and>
             (\<forall>r \<in> set (results out).
                top_level r = [(''NSAllowsArbitraryLoads'', PNone),
                               (''NSAllowsArbitraryLoadsInWebContent'', PNone),
                               (''NSAllowsArbitraryLoadsForMedia'', PNone)] \<and>
                domains r = [])))"
proof (rule conjI)
  from summarize_pl_no_section [OF assms]
  show "\<exists>s. summarize_pl (PDict pe) = Inr s \<and>
           top_level s = [(''NSAllowsArbitraryLoads'', PNone),
                          (''NSAllowsArbitraryLoadsInWebContent'', PNone),
                          (''NSAllowsArbitraryLoadsForMedia'', PNone)] \<and>
           domains s = [] \<and>
           (\<forall>p. \<not> insecure_of
                   [\<lparr> top_level = top_level s, domains = domains s, info_plist = p \<rparr>]) \<and>
           (\<forall>p rs rs'.
              insecure_of
                (rs @ \<lparr> top_level = top_level s, domains = domains s, info_plist = p \<rparr> # rs') =
              insecure_of (rs @ rs'))"
    by (simp add: insecure_of_append insecure_of_Cons insecure_of_def)
next
  show "ZipFile fs ipa = Inr z \<and> find_all_info_plists z \<noteq> [] \<and>
          (\<forall>p \<in> set (find_all_info_plists z). \<forall>pl. parse_plist z p = Inr pl \<longrightarrow>
             (\<exists>pe'. pl = PDict pe' \<and> map_of pe' ''NSAppTransportSecurity'' = None)) \<longrightarrow>
          (\<exists>out. run fs ipa fd jm cm = Inr out \<and> exit_code out = 0 \<and>
             (\<forall>r \<in> set (results out).
                top_level r = [(''NSAllowsArbitraryLoads'', PNone),
                               (''NSAllowsArbitraryLoadsInWebContent'', PNone),
                               (''NSAllowsArbitraryLoadsForMedia'', PNone)] \<and>
                domains r = []))"
  proof
    assume h: "ZipFile fs ipa = Inr z \<and> find_all_info_plists z \<noteq> [] \<and>
          (\<forall>p \<in> set (find_all_info_plists z). \<forall>pl. parse_plist z p = Inr pl \<longrightarrow>
             (\<exists>pe'. pl = PDict pe' \<and> map_of pe' ''NSAppTransportSecurity'' = None))"
    then have a: "ZipFile fs ipa = Inr z" and b: "find_all_info_plists z \<noteq> []"
      and c: "\<forall>p \<in> set (find_all_info_plists z). \<forall>pl. parse_plist z p = Inr pl \<longrightarrow>
             (\<exists>pe'. pl = PDict pe' \<and> map_of pe' ''NSAppTransportSecurity'' = None)"
      by blast+
    show "\<exists>out. run fs ipa fd jm cm = Inr out \<and> exit_code out = 0 \<and>
             (\<forall>r \<in> set (results out).
                top_level r = [(''NSAllowsArbitraryLoads'', PNone),
                               (''NSAllowsArbitraryLoadsInWebContent'', PNone),
                               (''NSAllowsArbitraryLoadsForMedia'', PNone)] \<and>
                domains r = [])"
      by (rule run_no_section [OF a b c])
  qed
qed

lemma find_all_ex_plain_archive:
  "find_all_info_plists ex_plain_archive =
     [''Payload/A.app/Info.plist'', ''Payload/A.app/PlugIns/E.appex/Info.plist'']"
  by code_simp

text \<open>
  The theorem at a manifest that holds only the name of the bundle, and at an archive of
  two manifests without the section.
\<close>

theorem no_security_section_witness:
  "map_of [(''CFBundleName'', PStr ''App'')] ''NSAppTransportSecurity'' = None \<and>
   (\<exists>s. summarize_pl (PDict [(''CFBundleName'', PStr ''App'')]) = Inr s \<and>
      top_level s = [(''NSAllowsArbitraryLoads'', PNone),
                     (''NSAllowsArbitraryLoadsInWebContent'', PNone),
                     (''NSAllowsArbitraryLoadsForMedia'', PNone)] \<and>
      domains s = [] \<and>
      (\<forall>p. \<not> insecure_of
              [\<lparr> top_level = top_level s, domains = domains s, info_plist = p \<rparr>]) \<and>
      (\<forall>p rs rs'.
         insecure_of
           (rs @ \<lparr> top_level = top_level s, domains = domains s, info_plist = p \<rparr> # rs') =
         insecure_of (rs @ rs'))) \<and>
   ZipFile ex_plain_fs ''app.ipa'' = Inr ex_plain_archive \<and>
   find_all_info_plists ex_plain_archive \<noteq> [] \<and>
   (\<exists>out. run ex_plain_fs ''app.ipa'' None True ''always'' = Inr out \<and> exit_code out = 0 \<and>
      (\<forall>r \<in> set (results out).
         top_level r = [(''NSAllowsArbitraryLoads'', PNone),
                        (''NSAllowsArbitraryLoadsInWebContent'', PNone),
                        (''NSAllowsArbitraryLoadsForMedia'', PNone)] \<and>
         domains r = []))"
proof -
  have h: "map_of [(''CFBundleName'', PStr ''App'')] ''NSAppTransportSecurity'' = None"
    by simp
  have a: "ZipFile ex_plain_fs ''app.ipa'' = Inr ex_plain_archive"
    by (simp add: ZipFile_def ex_plain_fs_def)
  have b: "find_all_info_plists ex_plain_archive \<noteq> []"
    by (simp add: find_all_ex_plain_archive)
  have c: "\<forall>p \<in> set (find_all_info_plists ex_plain_archive).
             \<forall>pl. parse_plist ex_plain_archive p = Inr pl \<longrightarrow>
               (\<exists>pe'. pl = PDict pe' \<and> map_of pe' ''NSAppTransportSecurity'' = None)"
    by (auto simp add: find_all_ex_plain_archive parse_plist_def ex_plain_archive_def)
  note inst = no_security_section [OF h, of ex_plain_fs "''app.ipa''" ex_plain_archive None True "''always''"]
  from inst have first: "\<exists>s. summarize_pl (PDict [(''CFBundleName'', PStr ''App'')]) = Inr s \<and>
      top_level s = [(''NSAllowsArbitraryLoads'', PNone),
                     (''NSAllowsArbitraryLoadsInWebContent'', PNone),
                     (''NSAllowsArbitraryLoadsForMedia'', PNone)] \<and>
      domains s = [] \<and>
      (\<forall>p. \<not> insecure_of
              [\<lparr> top_level = top_level s, domains = domains s, info_plist = p \<rparr>]) \<and>
      (\<forall>p rs rs'.
         insecure_of
           (rs @ \<lparr> top_level = top_level s, domains = domains s, info_plist = p \<rparr> # rs') =
         insecure_of (rs @ rs'))"
    by (rule conjunct1)
  from inst [THEN conjunct2, THEN mp, OF conjI [OF a conjI [OF b c]]]
  have second: "\<exists>out. run ex_plain_fs ''app.ipa'' None True ''always'' = Inr out \<and>
      exit_code out = 0 \<and>
      (\<forall>r \<in> set (results out).
         top_level r = [(''NSAllowsArbitraryLoads'', PNone),
                        (''NSAllowsArbitraryLoadsInWebContent'', PNone),
                        (''NSAllowsArbitraryLoadsForMedia'', PNone)] \<and>
         domains r = [])" .
  show ?thesis
    by (rule conjI [OF h conjI [OF first conjI [OF a conjI [OF b second]]]])
qed

end
